theory Spec2Isabelle
  imports Complex_Main "HOL-Library.Word"
begin

section \<open>Python primitives used by the demo script\<close>

datatype error = ValueError | IndexError | NotFoundError | FailedPreconditionError

text \<open>\<open>np.minimum\<close> on two Python integers.\<close>

definition np_minimum :: "int \<Rightarrow> int \<Rightarrow> int" where
  "np_minimum a b = (if a \<le> b then a else b)"

text \<open>\<open>range(k)\<close> for a Python integer: empty when \<open>k \<le> 0\<close>.\<close>

definition py_range :: "int \<Rightarrow> int list" where
  "py_range k = map int [0 ..< nat k]"

text \<open>A slice bound of \<open>xs[i:j]\<close>: a negative bound counts from the end, and the
  result is clamped to \<open>0 .. len(xs)\<close>.\<close>

definition slice_bound :: "nat \<Rightarrow> int \<Rightarrow> nat" where
  "slice_bound len i =
     (if i < 0 then (if int len + i < 0 then 0 else nat (int len + i))
      else if int len < i then len else nat i)"

definition py_slice :: "'a list \<Rightarrow> int \<Rightarrow> int \<Rightarrow> 'a list" where
  "py_slice xs i j =
     (let lo = slice_bound (length xs) i; hi = slice_bound (length xs) j
      in take (hi - lo) (drop lo xs))"

text \<open>\<open>xs[j]\<close> for \<open>j \<ge> 0\<close> as produced by \<open>range\<close>; out of range raises.\<close>

definition py_index :: "'a list \<Rightarrow> int \<Rightarrow> error + 'a" where
  "py_index xs j =
     (let n = int (length xs); k = (if j < 0 then n + j else j)
      in if 0 \<le> k \<and> k < n then Inr (xs ! nat k) else Inl IndexError)"

text \<open>\<open>s.find(sub, start)\<close> for \<open>start \<ge> 0\<close>: the lowest index \<open>\<ge> start\<close> at which
  \<open>sub\<close> occurs in \<open>s\<close>, or \<open>-1\<close>.\<close>

fun find_from :: "string \<Rightarrow> string \<Rightarrow> nat \<Rightarrow> nat \<Rightarrow> int" where
  "find_from s sub i 0 = (if take (length sub) (drop i s) = sub then int i else -1)"
| "find_from s sub i (Suc k) =
     (if take (length sub) (drop i s) = sub then int i else find_from s sub (Suc i) k)"

definition py_find :: "string \<Rightarrow> string \<Rightarrow> nat \<Rightarrow> int" where
  "py_find s sub start =
     (if length s < start + length sub then -1
      else find_from s sub start (length s - (start + length sub)))"

text \<open>\<open>sub\<close> occurs in \<open>s\<close> at index \<open>j\<close>.\<close>

definition occurs_at :: "string \<Rightarrow> string \<Rightarrow> nat \<Rightarrow> bool" where
  "occurs_at s sub j = (j + length sub \<le> length s \<and> take (length sub) (drop j s) = sub)"

section \<open>The batching loop of the demo's main program\<close>

text \<open>Lines 272--275: the end of the next batch, moved back when it would pass the
  number of embeddings. The result is the pair \<open>(count, iend)\<close> the slices use.\<close>

definition batch_bounds :: "int \<Rightarrow> int \<Rightarrow> int \<Rightarrow> int \<times> int" where
  "batch_bounds num_embeddings batch_size count =
     (let iend = count + batch_size
      in if iend > num_embeddings then (num_embeddings - batch_size, num_embeddings)
         else (count, iend))"

section \<open>Generation\<close>

text \<open>\<open>GenerativeModel.generate\<close> runs the session once, on a session whose variables
  hold values; the session (its random state included) is the explicit state \<open>'s\<close>, and
  the result is the pair \<open>(hr_samples, lr_samples)\<close>. The network itself is a parameter
  \<open>run\<close>. What happens on a session whose variables were never loaded is part of
  \<open>main\<close> below.\<close>

type_synonym ('e, 'b, 's) generate = "'e list \<Rightarrow> 's \<Rightarrow> ('b \<times> 'b) \<times> 's"

text \<open>The loop of \<open>generate_n\<close> over \<open>range(np.minimum(16, n))\<close>: the two lists grow by
  one sample batch per call.\<close>

fun generate_loop ::
  "('e, 'b, 's) generate \<Rightarrow> 'e list \<Rightarrow> int list \<Rightarrow> 'b list \<times> 'b list \<Rightarrow> 's
     \<Rightarrow> ('b list \<times> 'b list) \<times> 's" where
  "generate_loop run embeddings [] (hr_samples_batchs, lr_samples_batchs) s =
     ((hr_samples_batchs, lr_samples_batchs), s)"
| "generate_loop run embeddings (i # is) (hr_samples_batchs, lr_samples_batchs) s =
     (case run embeddings s of
        ((hr_samples, samples), s') \<Rightarrow>
          generate_loop run embeddings is
            (hr_samples_batchs @ [hr_samples], lr_samples_batchs @ [samples]) s')"

definition generate_n ::
  "('e, 'b, 's) generate \<Rightarrow> 'e list \<Rightarrow> int \<Rightarrow> 's \<Rightarrow> ('b list \<times> 'b list) \<times> 's" where
  "generate_n run embeddings n s =
     generate_loop run embeddings (py_range (np_minimum 16 n)) ([], []) s"

text \<open>The graph returns one high-resolution and one low-resolution image per embedding
  fed to it; this is what is assumed of \<open>run\<close> where a property needs it.\<close>

definition one_image_per_row :: "('e, 'i list, 's) generate \<Rightarrow> bool" where
  "one_image_per_row run =
     (\<forall>e s. length (fst (fst (run e s))) = length e \<and> length (snd (fst (run e s))) = length e)"

section \<open>Pixel rescaling\<close>

text \<open>Line 141 (and 156): \<open>hr_img = (hr_img + 1.0) * 127.5\<close>, on one pixel value, over
  the reals.\<close>

definition rescale :: "real \<Rightarrow> real" where
  "rescale x = (x + 1.0) * 127.5"

text \<open>The inverse map as the specification words it: \<open>g(y) = y / 127.5 - 1\<close>. It does
  not occur in the program.\<close>

definition spec_unscale :: "real \<Rightarrow> real" where
  "spec_unscale y = y / 127.5 - 1"

section \<open>Captions\<close>

text \<open>A composite image is kept as its height and the text drawn on it, each text
  with its position.\<close>

type_synonym draw_op = "(int \<times> int) \<times> string"

record super_image =
  height :: nat
  drawn :: "draw_op list"

definition drawCaption :: "nat \<Rightarrow> string \<Rightarrow> super_image" where
  "drawCaption img_height caption =
     (let d0 = [((10, 256), ''Stage-I''), ((10, 512), ''Stage-II'')];
          d1 = (if img_height > 832
                then d0 @ [((10, 832), ''Stage-I''), ((10, 1088), ''Stage-II'')]
                else d0);
          idx = py_find caption '' '' 60
      in if idx = -1
         then \<lparr>height = img_height, drawn = d1 @ [((256, 10), caption)]\<rparr>
         else (let cap1 = take (nat idx) caption;
                   cap2 = drop (nat (idx + 1)) caption
               in \<lparr>height = img_height,
                   drawn = d1 @ [((256, 10), cap1), ((256, 60), cap2)]\<rparr>))"

text \<open>The caption lines of an image: what was drawn in the caption column
  \<open>x = 256\<close>.\<close>

definition caption_lines :: "super_image \<Rightarrow> string list" where
  "caption_lines img = map snd (filter (\<lambda>op. fst (fst op) = 256) (drawn img))"

section \<open>Writing the composite images\<close>

text \<open>\<open>re.search('[a-zA-Z]+', s)\<close>: some character of \<open>s\<close> is an ASCII letter.\<close>

definition is_ascii_letter :: "char \<Rightarrow> bool" where
  "is_ascii_letter c =
     (let k = (of_char c :: nat) in (97 \<le> k \<and> k \<le> 122) \<or> (65 \<le> k \<and> k \<le> 90))"

definition re_search_alpha :: "string \<Rightarrow> bool" where
  "re_search_alpha s = list_ex is_ascii_letter s"

text \<open>The \<open>%d\<close> conversion of a Python integer.\<close>

fun digits_of :: "nat \<Rightarrow> string" where
  "digits_of n =
     (if n < 10 then [char_of (48 + n)]
      else digits_of (n div 10) @ [char_of (48 + n mod 10)])"

declare digits_of.simps [simp del]

definition fmt_d :: "int \<Rightarrow> string" where
  "fmt_d k = (if k < 0 then CHR ''-'' # digits_of (nat (- k)) else digits_of (nat k))"

text \<open>Line 175: \<open>'%s/sentence%d.jpg' % (save_dir, startID + j)\<close>.\<close>

definition fullpath_of :: "string \<Rightarrow> int \<Rightarrow> string" where
  "fullpath_of save_dir k = save_dir @ ''/sentence'' @ fmt_d k @ ''.jpg''"

text \<open>The height of the composite image of one sentence: two rows of images, a second
  group of two rows under a 64 pixel band when there are more than 8 samples, and a
  128 pixel band on top (lines 145--173).\<close>

definition superimage_height :: "nat \<Rightarrow> nat \<Rightarrow> nat" where
  "superimage_height img_rows num_samples =
     (let superimage = img_rows + img_rows;
          superimage' = (if num_samples > 8 then superimage + 64 + superimage
                         else superimage)
      in 128 + superimage')"

text \<open>A sample batch is the list of its images, one per embedding fed to the graph.
  \<open>batchs[i][j]\<close> raises when either index is out of range.\<close>

definition sample_at :: "'i list list \<Rightarrow> int \<Rightarrow> int \<Rightarrow> error + 'i" where
  "sample_at batchs i j =
     (case py_index batchs i of Inl e \<Rightarrow> Inl e | Inr batch \<Rightarrow> py_index batch j)"

text \<open>The sample indices of the first group, \<open>range(np.minimum(8, len))\<close>, followed by
  those of the second, \<open>range(8, len)\<close>, which exists when there are more than 8
  samples.\<close>

definition group_indices :: "nat \<Rightarrow> int list" where
  "group_indices num =
     py_range (np_minimum 8 (int num)) @ (if num > 8 then map int [8 ..< num] else [])"

text \<open>The images read for sentence \<open>j\<close>: \<open>lr_sample_batchs[i][j]\<close> and
  \<open>hr_sample_batchs[i][j]\<close> for each sample index in turn.\<close>

fun gather :: "'i list list \<Rightarrow> 'i list list \<Rightarrow> int \<Rightarrow> int list \<Rightarrow> error + ('i \<times> 'i) list" where
  "gather lr_sample_batchs hr_sample_batchs j [] = Inr []"
| "gather lr_sample_batchs hr_sample_batchs j (i # is) =
     (case sample_at lr_sample_batchs i j of
        Inl e \<Rightarrow> Inl e
      | Inr lr_img \<Rightarrow>
          (case sample_at hr_sample_batchs i j of
             Inl e \<Rightarrow> Inl e
           | Inr hr_img \<Rightarrow>
               (case gather lr_sample_batchs hr_sample_batchs j is of
                  Inl e \<Rightarrow> Inl e
                | Inr samples \<Rightarrow> Inr ((lr_img, hr_img) # samples))))"

text \<open>The loop of \<open>save_super_images\<close> over \<open>j in range(batch_size)\<close>. The state is the
  list of paths given to \<open>scipy.misc.imsave\<close>, in order; of the composite image only
  the height and the text drawn on it are kept.\<close>

fun save_loop ::
  "nat \<Rightarrow> 'i list list \<Rightarrow> 'i list list \<Rightarrow> string list \<Rightarrow> int \<Rightarrow> string \<Rightarrow> int list
     \<Rightarrow> super_image list \<Rightarrow> string list \<Rightarrow> (error + super_image list) \<times> string list" where
  "save_loop img_rows lr_sample_batchs hr_sample_batchs texts_batch startID save_dir []
       super_images fs =
     (Inr super_images, fs)"
| "save_loop img_rows lr_sample_batchs hr_sample_batchs texts_batch startID save_dir (j # js)
       super_images fs =
     (case py_index texts_batch j of
        Inl e \<Rightarrow> (Inl e, fs)
      | Inr text \<Rightarrow>
          if \<not> re_search_alpha text
          then save_loop img_rows lr_sample_batchs hr_sample_batchs texts_batch startID
                 save_dir js super_images fs
          else (case gather lr_sample_batchs hr_sample_batchs j
                       (group_indices (length lr_sample_batchs)) of
                  Inl e \<Rightarrow> (Inl e, fs)
                | Inr samples \<Rightarrow>
                    (let fullpath = fullpath_of save_dir (startID + j);
                         superimage =
                           drawCaption
                             (superimage_height img_rows (length lr_sample_batchs)) text;
                         fs' = (if save_dir \<noteq> [] then fs @ [fullpath] else fs)
                     in save_loop img_rows lr_sample_batchs hr_sample_batchs texts_batch
                          startID save_dir js (super_images @ [superimage]) fs')))"

text \<open>\<open>save_super_images\<close>; \<open>rows\<close> gives the height of an image
  (\<open>hr_sample_batchs[0][0].shape\<close>). Creating the folder is not modelled.\<close>

definition save_super_images ::
  "('i \<Rightarrow> nat) \<Rightarrow> 'i list list \<Rightarrow> 'i list list \<Rightarrow> string list \<Rightarrow> int \<Rightarrow> int \<Rightarrow> string
     \<Rightarrow> string list \<Rightarrow> (error + super_image list) \<times> string list" where
  "save_super_images rows lr_sample_batchs hr_sample_batchs texts_batch batch_size
       startID save_dir fs =
     (case sample_at hr_sample_batchs 0 0 of
        Inl e \<Rightarrow> (Inl e, fs)
      | Inr img0 \<Rightarrow>
          save_loop (rows img0) lr_sample_batchs hr_sample_batchs texts_batch startID
            save_dir (py_range batch_size) [] fs)"

section \<open>The main program\<close>

text \<open>\<open>os.path.dirname\<close> of a POSIX path.\<close>

definition dirname :: "string \<Rightarrow> string" where
  "dirname p =
     (let i = length p - length (takeWhile (\<lambda>c. c \<noteq> CHR ''/'') (rev p));
          head = take i p
      in if head \<noteq> [] \<and> \<not> list_all (\<lambda>c. c = CHR ''/'') head
         then rev (dropWhile (\<lambda>c. c = CHR ''/'') (rev head))
         else head)"

text \<open>What one pass of the loop hands to generation and to the image writer.\<close>

record 'e batch_call =
  b_count :: int
  b_iend :: int
  b_embeddings :: "'e list"
  b_texts :: "string list"

text \<open>The state of a run: the session, the paths written so far and the batches
  generated so far.\<close>

record ('e, 's) world =
  session :: 's
  written :: "string list"
  calls :: "'e batch_call list"

text \<open>One pass of the loop, lines 272--288: the exception raised in it if any, the
  value of \<open>count\<close> after it and the state after it.\<close>

definition loop_body ::
  "('e, 'i list, 's) generate \<Rightarrow> ('i \<Rightarrow> nat) \<Rightarrow> 'e list \<Rightarrow> string list \<Rightarrow> int \<Rightarrow> int \<Rightarrow> string
     \<Rightarrow> int \<Rightarrow> ('e, 's) world \<Rightarrow> error option \<times> int \<times> ('e, 's) world" where
  "loop_body run rows embeddings normalized_texts num_embeddings batch_size save_dir
       count w =
     (case batch_bounds num_embeddings batch_size count of
        (count', iend) \<Rightarrow>
          (let embeddings_batch = py_slice embeddings count' iend;
               text_batch = py_slice normalized_texts count' iend;
               call = \<lparr>b_count = count', b_iend = iend,
                       b_embeddings = embeddings_batch, b_texts = text_batch\<rparr>
           in case generate_n run embeddings_batch 8 (session w) of
                ((hr_samples_batch, lr_samples_batch), s') \<Rightarrow>
                  (case save_super_images rows lr_samples_batch hr_samples_batch
                          text_batch batch_size count' save_dir (written w) of
                     (Inl e, fs) \<Rightarrow>
                       (Some e, count',
                        \<lparr>session = s', written = fs, calls = calls w @ [call]\<rparr>)
                   | (Inr super_images, fs) \<Rightarrow>
                       (None, count' + batch_size,
                        \<lparr>session = s', written = fs, calls = calls w @ [call]\<rparr>))))"

text \<open>Lines 269--288. A run that never leaves the loop has the value \<open>None\<close>; an
  exception stops the loop and is returned with the state reached.\<close>

partial_function (option) main_loop ::
  "('e, 'i list, 's) generate \<Rightarrow> ('i \<Rightarrow> nat) \<Rightarrow> 'e list \<Rightarrow> string list \<Rightarrow> int \<Rightarrow> int \<Rightarrow> string
     \<Rightarrow> int \<Rightarrow> ('e, 's) world \<Rightarrow> (error option \<times> ('e, 's) world) option" where
  "main_loop run rows embeddings normalized_texts num_embeddings batch_size save_dir
       count w =
     (if count < num_embeddings then
        (case loop_body run rows embeddings normalized_texts num_embeddings batch_size
                save_dir count w of
           (Some e, count', w') \<Rightarrow> Some (Some e, w')
         | (None, count', w') \<Rightarrow>
             main_loop run rows embeddings normalized_texts num_embeddings batch_size
               save_dir count' w')
      else Some (None, w))"

declare main_loop.simps [code]

section \<open>Conditioning augmentation and the model graph\<close>

text \<open>A tensor is the list of its entries in row-major order. Random numbers come from
  an explicit random state \<open>'r\<close>, from which \<open>normal\<close> draws one standard Gaussian
  value.\<close>

type_synonym tensor = "real list"

type_synonym 'r normal = "'r \<Rightarrow> real \<times> 'r"

text \<open>One entry of \<open>tf.truncated_normal\<close>, as the library documents it: a Gaussian value
  whose magnitude is more than 2 standard deviations is dropped and drawn again. On a
  source that never gives a value within the bound the draw does not return.\<close>

partial_function (option) truncated_draw :: "'r normal \<Rightarrow> 'r \<Rightarrow> (real \<times> 'r) option" where
  "truncated_draw normal r =
     (case normal r of
        (x, r') \<Rightarrow> if abs x \<le> 2 then Some (x, r') else truncated_draw normal r')"

declare truncated_draw.simps [code]

text \<open>\<open>tf.truncated_normal(shape)\<close> and \<open>tf.random_normal(shape)\<close> for a shape of \<open>m\<close>
  entries.\<close>

fun truncated_normal :: "'r normal \<Rightarrow> nat \<Rightarrow> 'r \<Rightarrow> (tensor \<times> 'r) option" where
  "truncated_normal normal 0 r = Some ([], r)"
| "truncated_normal normal (Suc m) r =
     (case truncated_draw normal r of
        None \<Rightarrow> None
      | Some (x, r') \<Rightarrow>
          (case truncated_normal normal m r' of
             None \<Rightarrow> None
           | Some (xs, r'') \<Rightarrow> Some (x # xs, r'')))"

fun random_normal :: "'r normal \<Rightarrow> nat \<Rightarrow> 'r \<Rightarrow> tensor \<times> 'r" where
  "random_normal normal 0 r = ([], r)"
| "random_normal normal (Suc m) r =
     (case normal r of
        (x, r') \<Rightarrow> (case random_normal normal m r' of (xs, r'') \<Rightarrow> (x # xs, r'')))"

text \<open>A source on which every truncated draw returns: from every state, some later draw
  lies within the bound.\<close>

definition keeps_giving :: "'r normal \<Rightarrow> bool" where
  "keeps_giving normal =
     (\<forall>r. \<exists>k. abs (fst (normal (((\<lambda>t. snd (normal t)) ^^ k) r))) \<le> 2)"

text \<open>\<open>sample_encoded_context\<close>. \<open>generate_condition\<close> is a method of the network class,
  which is not part of the sources: it is a parameter, and gives the mean and the log
  sigma, two tensors of one shape, as the list of the pairs of their entries.\<close>

definition sample_encoded_context ::
  "'r normal \<Rightarrow> (tensor \<Rightarrow> (real \<times> real) list) \<Rightarrow> tensor \<Rightarrow> bool \<Rightarrow> 'r
     \<Rightarrow> (tensor \<times> 'r) option" where
  "sample_encoded_context normal generate_condition embeddings bAugmentation r =
     (let c_mean_logsigma = generate_condition embeddings;
          mean = map fst c_mean_logsigma
      in if bAugmentation
         then (case truncated_normal normal (length mean) r of
                 None \<Rightarrow> None
               | Some (epsilon, r') \<Rightarrow>
                   (let stddev = map (\<lambda>p. exp (snd p)) c_mean_logsigma;
                        c = map (\<lambda>(m, sd, e). m + sd * e) (zip mean (zip stddev epsilon))
                    in Some (c, r')))
         else Some (mean, r))"

text \<open>Lines 75--82 of \<open>build_model\<close>, up to the two conditioning codes: the code \<open>c\<close>
  under the scope \<open>g_net\<close>, the noise \<open>z\<close> of \<open>z_size\<close> entries, and the code \<open>hr_c\<close>
  under the scope \<open>hr_g_net\<close>; \<open>generate_condition\<close> depends on the variables \<open>'p\<close> of
  the enclosing scope, which \<open>variables\<close> gives by the scope's name. Both calls leave
  \<open>bAugmentation\<close> at its default.\<close>

definition conditioning_codes ::
  "'r normal \<Rightarrow> ('p \<Rightarrow> tensor \<Rightarrow> (real \<times> real) list) \<Rightarrow> (string \<Rightarrow> 'p) \<Rightarrow> nat \<Rightarrow> tensor
     \<Rightarrow> 'r \<Rightarrow> ((tensor \<times> tensor \<times> tensor) \<times> 'r) option" where
  "conditioning_codes normal generate_condition variables z_size embeddings r =
     (case sample_encoded_context normal
             (generate_condition (variables ''g_net'')) embeddings True r of
        None \<Rightarrow> None
      | Some (c, r1) \<Rightarrow>
          (case random_normal normal z_size r1 of
             (z, r2) \<Rightarrow>
               (case sample_encoded_context normal
                       (generate_condition (variables ''hr_g_net'')) embeddings True r2 of
                  None \<Rightarrow> None
                | Some (hr_c, r3) \<Rightarrow> Some ((c, z, hr_c), r3))))"

text \<open>A session: whether its variables hold values, and the state that running it
  changes. \<open>tf.Session()\<close> gives a session whose variables hold none.\<close>

record 's session =
  variables_loaded :: bool
  run_state :: 's

text \<open>\<open>build_model\<close>. The placeholder of line 71 has \<open>batch_size\<close> rows, and the library
  refuses a negative size; the graph of lines 75--82 is what \<open>run\<close> executes. Lines
  84--91 are the checkpoint: \<open>restore\<close> stands for \<open>saver.restore\<close>, which may raise and
  otherwise loads the variables of the session. The result records what was printed
  and which checkpoint was restored.\<close>

record build_result =
  printed :: "string list"
  restored :: "string option"

definition build_model ::
  "(string \<Rightarrow> error option) \<Rightarrow> 's session \<Rightarrow> int \<Rightarrow> string
     \<Rightarrow> error + (build_result \<times> 's session)" where
  "build_model restore sess batch_size ckt_path =
     (if batch_size < 0 then Inl ValueError
      else if py_find ckt_path ''.ckpt'' 0 \<noteq> -1
      then (case restore ckt_path of
              Some e \<Rightarrow> Inl e
            | None \<Rightarrow>
                Inr (\<lparr>printed = [''Reading model parameters from '' @ ckt_path],
                      restored = Some ckt_path\<rparr>,
                     sess\<lparr>variables_loaded := True\<rparr>))
      else Inr (\<lparr>printed = [''Input a valid model path. '' @ ckt_path @ '' is not valid''],
                 restored = None\<rparr>,
                sess))"

section \<open>The embedding model wrapper\<close>

definition MAX_SENT_LENGTH :: nat where
  "MAX_SENT_LENGTH = 400"

text \<open>The wrapper keeps the tokenizer and \<open>maxlen\<close>. The tokenizer is a pickled
  object; \<open>texts_to_sequences\<close> is its action on one text.\<close>

record model =
  tokenizer :: "string \<Rightarrow> nat list"
  maxlen :: nat

definition Model_init :: "(string \<Rightarrow> nat list) \<Rightarrow> nat option \<Rightarrow> model" where
  "Model_init tok maxlen_arg =
     \<lparr>tokenizer = tok,
      maxlen = (case maxlen_arg of None \<Rightarrow> MAX_SENT_LENGTH | Some k \<Rightarrow> k)\<rparr>"

text \<open>The argument of \<open>embed\<close>: a list or tuple of strings, or anything else, here a
  string.\<close>

datatype text_arg = Str string | Seq "string list"

text \<open>\<open>pad_sequences(x, maxlen, padding='post', truncating='post')\<close> of the library:
  each sequence is cut after \<open>maxlen\<close> entries and filled with zeros at the end. The
  result is an array of 32 bit integers: a token id is kept modulo \<open>2 ^ 32\<close>.\<close>

definition pad_sequences :: "nat list list \<Rightarrow> nat \<Rightarrow> 32 word list list" where
  "pad_sequences x k = map (\<lambda>s. map of_nat (take k s) @ replicate (k - length s) 0) x"

text \<open>\<open>np.array(x).reshape(-1, k)\<close>: the entries in row-major order, cut into rows of
  \<open>k\<close>; an error when the number of rows cannot be inferred.\<close>

definition reshape_rows :: "'a list list \<Rightarrow> nat \<Rightarrow> error + 'a list list" where
  "reshape_rows x k =
     (let flat = concat x
      in if k = 0 \<or> length flat mod k \<noteq> 0 then Inl ValueError
         else Inr (map (\<lambda>i. take k (drop (i * k) flat)) [0 ..< length flat div k]))"

text \<open>Lines 56--61 of \<open>Model.embed\<close>: the token matrix fed to the graph.\<close>

definition token_matrix :: "model \<Rightarrow> text_arg \<Rightarrow> error + 32 word list list" where
  "token_matrix self text =
     (let text' = (case text of Seq ts \<Rightarrow> ts | Str t \<Rightarrow> [t]);
          x = map (tokenizer self) text';
          x' = pad_sequences x (maxlen self)
      in reshape_rows x' (maxlen self))"

text \<open>\<open>Model.embed\<close>; \<open>forward\<close> is the run of the frozen graph on the token matrix.\<close>

definition embed :: "(32 word list list \<Rightarrow> 'h) \<Rightarrow> model \<Rightarrow> text_arg \<Rightarrow> error + 'h" where
  "embed forward self text =
     (case token_matrix self text of Inl e \<Rightarrow> Inl e | Inr x \<Rightarrow> Inr (forward x))"

section \<open>The whole run\<close>

text \<open>The entries of the configuration that the run reads.\<close>

record cfg =
  TEST_BATCH_SIZE :: int
  TEST_PRETRAINED_MODEL :: string

text \<open>Lines 264--265: the folder the images go to.\<close>

definition save_dir_of :: "string option \<Rightarrow> string \<Rightarrow> string" where
  "save_dir_of save_dir_arg caption_path =
     (case save_dir_arg of
        None \<Rightarrow> dirname caption_path
      | Some d \<Rightarrow> if d \<noteq> [] then d else dirname caption_path)"

text \<open>The main program from \<open>embed_text\<close> on. \<open>texts\<close> are the lines of the caption
  file; \<open>normalize_fn\<close> and \<open>embed_one\<close> (the embedding of one normalised text) belong
  to modules that are not part of the sources and are parameters. Constructing
  \<open>GenerativeModel\<close> opens a session and calls \<open>build_model\<close>. Nothing in the program
  gives the variables a value but the restoring of the checkpoint, and the library
  refuses to run a session whose variables hold none: on such a session the first
  \<open>persistent_sess.run\<close> (line 220), which the first pass of the loop reaches before
  anything is written, raises.\<close>

definition main ::
  "('e, 'i list, 's) generate \<Rightarrow> ('i \<Rightarrow> nat) \<Rightarrow> (string \<Rightarrow> error option) \<Rightarrow> (string \<Rightarrow> string)
     \<Rightarrow> (string \<Rightarrow> 'e) \<Rightarrow> cfg \<Rightarrow> string \<Rightarrow> string option \<Rightarrow> string list \<Rightarrow> 's
     \<Rightarrow> (error option \<times> ('e, 's) world) option" where
  "main run rows restore normalize_fn embed_one config caption_path save_dir_arg texts s =
     (let normalized_texts = map normalize_fn texts;
          embeddings = map embed_one normalized_texts;
          num_embeddings = int (length normalized_texts);
          w0 = \<lparr>session = s, written = [], calls = []\<rparr>
      in if num_embeddings \<le> 0 then Some (Some ValueError, w0)
         else (let batch_size = np_minimum num_embeddings (TEST_BATCH_SIZE config)
               in case build_model restore \<lparr>variables_loaded = False, run_state = s\<rparr>
                         batch_size (TEST_PRETRAINED_MODEL config) of
                    Inl e \<Rightarrow> Some (Some e, w0)
                  | Inr (built, sess) \<Rightarrow>
                      (let save_dir = save_dir_of save_dir_arg caption_path
                       in if \<not> variables_loaded sess
                          then Some (Some FailedPreconditionError, w0)
                          else main_loop run rows embeddings normalized_texts
                                 num_embeddings batch_size save_dir 0 w0)))"

section \<open>Properties of generation and rescaling\<close>

lemma generate_loop_lengths:
  "length (fst (fst (generate_loop run e js (hs, ls) s))) = length hs + length js
   \<and> length (snd (fst (generate_loop run e js (hs, ls) s))) = length ls + length js"
  by (induction js arbitrary: hs ls s) (auto split: prod.splits)

lemma generate_loop_session:
  "snd (generate_loop run e js (hs, ls) s) = ((\<lambda>t. snd (run e t)) ^^ length js) s"
proof (induction js arbitrary: hs ls s)
  case Nil
  show ?case by simp
next
  case (Cons j js)
  define F where "F = (\<lambda>t. snd (run e t))"
  obtain h l s' where r: "run e s = ((h, l), s')"
    by (metis surj_pair)
  have "snd (generate_loop run e (j # js) (hs, ls) s) = (F ^^ length js) s'"
    using Cons.IH [of "hs @ [h]" "ls @ [l]" s'] r by (simp add: F_def)
  also have "s' = F s" using r by (simp add: F_def)
  also have "(F ^^ length js) (F s) = (F ^^ length (j # js)) s"
    by (simp add: funpow_swap1)
  finally show ?case by (simp add: F_def)
qed

lemma length_py_range: "length (py_range k) = nat k"
  by (simp add: py_range_def)

lemma generate_loop_collects:
  "generate_loop run e js (hs, ls) s =
     ((hs @ map (\<lambda>i. fst (fst (run e (((\<lambda>t. snd (run e t)) ^^ i) s)))) [0 ..< length js],
       ls @ map (\<lambda>i. snd (fst (run e (((\<lambda>t. snd (run e t)) ^^ i) s)))) [0 ..< length js]),
      ((\<lambda>t. snd (run e t)) ^^ length js) s)"
proof (induction js arbitrary: hs ls s)
  case Nil
  show ?case by simp
next
  case (Cons j js)
  define F where "F = (\<lambda>t. snd (run e t))"
  obtain h l s' where r: "run e s = ((h, l), s')"
    by (metis surj_pair)
  have s': "s' = F s" using r by (simp add: F_def)
  have sh: "(F ^^ i) (F s) = (F ^^ Suc i) s" for i
    by (simp add: funpow_swap1)
  have up: "[0 ..< Suc (length js)] = 0 # map Suc [0 ..< length js]"
    by (simp add: upt_conv_Cons map_Suc_upt del: upt_Suc)
  have "generate_loop run e (j # js) (hs, ls) s
        = generate_loop run e js (hs @ [h], ls @ [l]) s'"
    using r by simp
  also have "\<dots> =
     (((hs @ [h]) @ map (\<lambda>i. fst (fst (run e ((F ^^ i) s')))) [0 ..< length js],
       (ls @ [l]) @ map (\<lambda>i. snd (fst (run e ((F ^^ i) s')))) [0 ..< length js]),
      (F ^^ length js) s')"
    unfolding F_def by (rule Cons.IH)
  also have "\<dots> =
     ((hs @ map (\<lambda>i. fst (fst (run e ((F ^^ i) s)))) [0 ..< length (j # js)],
       ls @ map (\<lambda>i. snd (fst (run e ((F ^^ i) s)))) [0 ..< length (j # js)]),
      (F ^^ length (j # js)) s)"
    using r by (simp add: s' sh up comp_def del: upt_Suc funpow.simps)
  finally show ?case by (simp add: F_def)
qed

text \<open>C7: for every requested count \<open>n \<ge> 0\<close>, \<open>generate_n\<close> runs the session exactly
  \<open>min(16, n)\<close> times, each run on the state the one before left, and returns, high
  resolution first, the list of the high-resolution sample batches and the list of the
  low-resolution sample batches that these runs produced, in the order of the runs:
  \<open>min(16, n)\<close> of each, so never more than 16.\<close>

theorem generate_n_min_16:
  assumes "0 \<le> n"
  shows "generate_n run e n s =
           ((map (\<lambda>i. fst (fst (run e (((\<lambda>t. snd (run e t)) ^^ i) s)))) [0 ..< nat (min 16 n)],
             map (\<lambda>i. snd (fst (run e (((\<lambda>t. snd (run e t)) ^^ i) s)))) [0 ..< nat (min 16 n)]),
            ((\<lambda>t. snd (run e t)) ^^ nat (min 16 n)) s)
       \<and> length (fst (fst (generate_n run e n s))) = nat (min 16 n)
       \<and> length (snd (fst (generate_n run e n s))) = nat (min 16 n)
       \<and> nat (min 16 n) \<le> 16"
proof -
  have m: "np_minimum 16 n = min 16 n"
    by (simp add: np_minimum_def min_def)
  have g: "generate_n run e n s =
           ((map (\<lambda>i. fst (fst (run e (((\<lambda>t. snd (run e t)) ^^ i) s)))) [0 ..< nat (min 16 n)],
             map (\<lambda>i. snd (fst (run e (((\<lambda>t. snd (run e t)) ^^ i) s)))) [0 ..< nat (min 16 n)]),
            ((\<lambda>t. snd (run e t)) ^^ nat (min 16 n)) s)"
    unfolding generate_n_def m
    using generate_loop_collects [of run e "py_range (min 16 n)" "[]" "[]" s]
    by (simp add: length_py_range)
  show ?thesis unfolding g by simp
qed

theorem generate_n_min_16_witness:
  "(0::int) \<le> 20
   \<and> generate_n (\<lambda>e (t::nat). ((t, t + 100), Suc t)) [()] 20 0
       = (([0, 1, 2, 3, 4, 5, 6, 7, 8, 9, 10, 11, 12, 13, 14, 15],
           [100, 101, 102, 103, 104, 105, 106, 107, 108, 109, 110, 111, 112, 113, 114, 115]),
          16)
   \<and> generate_n (\<lambda>e (t::nat). ((t, t + 100), Suc t)) [()] 3 5 = (([5, 6, 7], [105, 106, 107]), 8)"
proof -
  have h: "(0::int) \<le> 20" "(0::int) \<le> 3" by simp_all
  have f: "((\<lambda>t. Suc t) ^^ k) a = a + k" for k a by (induction k) auto
  have u16: "[0 ..< 16] = [0, 1, 2, 3, 4, 5, 6, 7, 8, 9, 10, 11, 12, 13, 14, 15::nat]"
    by (simp add: upt_rec)
  have u3: "[0 ..< 3] = [0, 1, 2::nat]"
    by (simp add: upt_rec)
  show ?thesis
    using generate_n_min_16 [OF h(1), of "\<lambda>e (t::nat). ((t, t + 100), Suc t)" "[()]" 0]
      generate_n_min_16 [OF h(2), of "\<lambda>e (t::nat). ((t, t + 100), Suc t)" "[()]" 5]
    by (simp add: f u16 u3)
qed

text \<open>C8: the rescaling \<open>(x + 1.0) * 127.5\<close> maps the interval \<open>[-1, 1]\<close> onto
  \<open>[0, 255]\<close>, and \<open>y / 127.5 - 1\<close> brings every value of \<open>[-1, 1]\<close> back to itself,
  over exact arithmetic.\<close>

theorem rescale_onto_and_roundtrip:
  "(\<forall>x. -1 \<le> x \<and> x \<le> 1 \<longrightarrow>
        0 \<le> rescale x \<and> rescale x \<le> 255 \<and> spec_unscale (rescale x) = x)
   \<and> (\<forall>y. 0 \<le> y \<and> y \<le> 255 \<longrightarrow> (\<exists>x. -1 \<le> x \<and> x \<le> 1 \<and> rescale x = y))"
proof -
  have fwd: "0 \<le> rescale x \<and> rescale x \<le> 255 \<and> spec_unscale (rescale x) = x"
    if "-1 \<le> x \<and> x \<le> 1" for x
    using that by (simp add: rescale_def spec_unscale_def field_simps)
  have onto: "\<exists>x. -1 \<le> x \<and> x \<le> 1 \<and> rescale x = y" if y: "0 \<le> y \<and> y \<le> 255" for y
  proof -
    have "rescale (y / 127.5 - 1) = y" by (simp add: rescale_def)
    moreover have "-1 \<le> y / 127.5 - 1 \<and> y / 127.5 - 1 \<le> 1" using y by simp
    ultimately show ?thesis by blast
  qed
  from fwd onto show ?thesis by blast
qed

theorem rescale_onto_and_roundtrip_witness:
  "(-1::real) \<le> 1/2 \<and> (1/2::real) \<le> 1 \<and> 0 \<le> rescale (1/2) \<and> rescale (1/2) \<le> 255
   \<and> spec_unscale (rescale (1/2)) = 1/2
   \<and> (\<exists>x. -1 \<le> x \<and> x \<le> 1 \<and> rescale x = 51)"
proof -
  have a: "(-1::real) \<le> 1/2 \<and> (1/2::real) \<le> 1" by simp
  have b: "(0::real) \<le> 51 \<and> (51::real) \<le> 255" by simp
  from rescale_onto_and_roundtrip a b show ?thesis by blast
qed

section \<open>Facts about searching in strings\<close>

lemma find_from_none:
  "find_from s sub i k = -1 \<longleftrightarrow> (\<forall>j. i \<le> j \<and> j \<le> i + k \<longrightarrow> take (length sub) (drop j s) \<noteq> sub)"
proof (induction k arbitrary: i)
  case 0
  show ?case by auto
next
  case (Suc k)
  show ?case
  proof (cases "take (length sub) (drop i s) = sub")
    case True
    then show ?thesis by auto
  next
    case False
    have "(\<forall>j. i \<le> j \<and> j \<le> i + Suc k \<longrightarrow> take (length sub) (drop j s) \<noteq> sub)
        \<longleftrightarrow> (\<forall>j. Suc i \<le> j \<and> j \<le> Suc i + k \<longrightarrow> take (length sub) (drop j s) \<noteq> sub)"
      using False by (metis Suc_leD Suc_le_eq add_Suc add_Suc_right le_neq_implies_less)
    then show ?thesis using False Suc.IH [of "Suc i"] by simp
  qed
qed

lemma find_from_some:
  "find_from s sub i k \<noteq> -1 \<Longrightarrow>
     \<exists>j. find_from s sub i k = int j \<and> i \<le> j \<and> j \<le> i + k
         \<and> take (length sub) (drop j s) = sub
         \<and> (\<forall>j'. i \<le> j' \<and> j' < j \<longrightarrow> take (length sub) (drop j' s) \<noteq> sub)"
proof (induction k arbitrary: i)
  case 0
  then show ?case by (auto split: if_splits)
next
  case (Suc k)
  show ?case
  proof (cases "take (length sub) (drop i s) = sub")
    case True
    then show ?thesis by auto
  next
    case False
    then have "find_from s sub (Suc i) k \<noteq> -1" using Suc.prems by simp
    from Suc.IH [OF this] obtain j where j: "find_from s sub (Suc i) k = int j"
      "Suc i \<le> j" "j \<le> Suc i + k" "take (length sub) (drop j s) = sub"
      "\<forall>j'. Suc i \<le> j' \<and> j' < j \<longrightarrow> take (length sub) (drop j' s) \<noteq> sub"
      by blast
    have "\<forall>j'. i \<le> j' \<and> j' < j \<longrightarrow> take (length sub) (drop j' s) \<noteq> sub"
      using j(5) False by (metis Suc_leI le_neq_implies_less)
    then show ?thesis using j False by auto
  qed
qed

lemma py_find_none:
  "py_find s sub start = -1 \<longleftrightarrow> (\<forall>j\<ge>start. \<not> occurs_at s sub j)"
proof (cases "length s < start + length sub")
  case True
  then show ?thesis by (auto simp: py_find_def occurs_at_def)
next
  case False
  have "(\<forall>j. start \<le> j \<and> j \<le> start + (length s - (start + length sub))
            \<longrightarrow> take (length sub) (drop j s) \<noteq> sub)
      \<longleftrightarrow> (\<forall>j\<ge>start. \<not> occurs_at s sub j)"
    using False by (auto simp: occurs_at_def)
  then show ?thesis using False by (simp add: py_find_def find_from_none)
qed

lemma py_find_some:
  assumes "py_find s sub start \<noteq> -1"
  shows "\<exists>j. py_find s sub start = int j \<and> start \<le> j \<and> occurs_at s sub j
           \<and> (\<forall>j'. start \<le> j' \<and> j' < j \<longrightarrow> \<not> occurs_at s sub j')"
proof -
  have le: "start + length sub \<le> length s"
    using assms by (auto simp: py_find_def split: if_splits)
  then have "find_from s sub start (length s - (start + length sub)) \<noteq> -1"
    using assms by (simp add: py_find_def)
  from find_from_some [OF this] obtain j where
    j: "find_from s sub start (length s - (start + length sub)) = int j" "start \<le> j"
       "j \<le> start + (length s - (start + length sub))"
       "take (length sub) (drop j s) = sub"
       "\<forall>j'. start \<le> j' \<and> j' < j \<longrightarrow> take (length sub) (drop j' s) \<noteq> sub"
    by blast
  have "occurs_at s sub j" using j(3,4) le by (simp add: occurs_at_def)
  moreover have "\<forall>j'. start \<le> j' \<and> j' < j \<longrightarrow> \<not> occurs_at s sub j'"
    using j(5) by (simp add: occurs_at_def)
  moreover have "py_find s sub start = int j" using le j(1) by (simp add: py_find_def)
  ultimately show ?thesis using j(2) by blast
qed

lemma occurs_at_iff_infix:
  "(\<exists>j. occurs_at s sub j) \<longleftrightarrow> (\<exists>u v. s = u @ sub @ v)"
proof
  assume "\<exists>j. occurs_at s sub j"
  then obtain j where j: "j + length sub \<le> length s" "take (length sub) (drop j s) = sub"
    by (auto simp: occurs_at_def)
  have "drop j s = take (length sub) (drop j s) @ drop (length sub) (drop j s)"
    by (rule append_take_drop_id [symmetric])
  then have "s = take j s @ take (length sub) (drop j s) @ drop (length sub) (drop j s)"
    by (metis append_take_drop_id)
  then show "\<exists>u v. s = u @ sub @ v" using j(2) by metis
next
  assume "\<exists>u v. s = u @ sub @ v"
  then obtain u v where "s = u @ sub @ v" by blast
  then have "occurs_at s sub (length u)" by (simp add: occurs_at_def)
  then show "\<exists>j. occurs_at s sub j" by blast
qed

lemma occurs_at_space:
  "occurs_at s '' '' j \<longleftrightarrow> j < length s \<and> s ! j = CHR '' ''"
  by (auto simp: occurs_at_def take_Suc_conv_app_nth hd_drop_conv_nth take_Suc)

section \<open>Properties of the caption\<close>

lemma caption_lines_drawCaption:
  "caption_lines (drawCaption h caption) =
     (let idx = py_find caption '' '' 60
      in if idx = -1 then [caption]
         else [take (nat idx) caption, drop (nat (idx + 1)) caption])"
  by (simp add: caption_lines_def drawCaption_def Let_def)

text \<open>C6, as amended: the caption is drawn on two lines exactly when it has a space at
  index 60 or later; it is cut at the first such space, the first part drawn at
  \<open>(256, 10)\<close> and the rest at \<open>(256, 60)\<close>. A caption without such a space
  (any caption of at most 60 characters) is drawn whole on one line.\<close>

theorem drawCaption_one_or_two_lines:
  "((\<forall>i. 60 \<le> i \<and> i < length caption \<longrightarrow> caption ! i \<noteq> CHR '' '')
      \<longrightarrow> caption_lines (drawCaption h caption) = [caption])
   \<and> (60 \<le> k \<and> k < length caption \<and> caption ! k = CHR '' ''
        \<and> (\<forall>i. 60 \<le> i \<and> i < k \<longrightarrow> caption ! i \<noteq> CHR '' '')
      \<longrightarrow> caption_lines (drawCaption h caption) = [take k caption, drop (Suc k) caption])"
proof (rule conjI; rule impI)
  assume "\<forall>i. 60 \<le> i \<and> i < length caption \<longrightarrow> caption ! i \<noteq> CHR '' ''"
  then have "\<forall>j\<ge>60. \<not> occurs_at caption '' '' j"
    by (simp add: occurs_at_space)
  then have "py_find caption '' '' 60 = -1"
    by (simp add: py_find_none)
  then show "caption_lines (drawCaption h caption) = [caption]"
    by (simp add: caption_lines_drawCaption)
next
  assume k: "60 \<le> k \<and> k < length caption \<and> caption ! k = CHR '' ''
        \<and> (\<forall>i. 60 \<le> i \<and> i < k \<longrightarrow> caption ! i \<noteq> CHR '' '')"
  then have occ: "occurs_at caption '' '' k"
    by (simp add: occurs_at_space)
  then have ne: "py_find caption '' '' 60 \<noteq> -1"
    using k py_find_none [of caption "'' ''" 60] by blast
  from py_find_some [OF ne] obtain j where
    j: "py_find caption '' '' 60 = int j" "60 \<le> j" "occurs_at caption '' '' j"
       "\<forall>j'. 60 \<le> j' \<and> j' < j \<longrightarrow> \<not> occurs_at caption '' '' j'"
    by blast
  have "\<not> j < k" using k j(2,3) by (auto simp: occurs_at_space)
  moreover have "\<not> k < j" using j(4) occ k by blast
  ultimately have "j = k" by simp
  then show "caption_lines (drawCaption h caption) = [take k caption, drop (Suc k) caption]"
    using j(1) by (simp add: caption_lines_drawCaption Let_def nat_add_distrib)
qed

text \<open>C6 as stated fails: a short caption is drawn on a single line.\<close>

theorem drawCaption_two_lines_counterexample:
  "caption_lines (drawCaption 640 ''this bird is red'') = [''this bird is red'']"
  by (simp add: caption_lines_drawCaption py_find_def)


theorem drawCaption_one_or_two_lines_witness:
  "caption_lines (drawCaption 640
      ''this is a small bird with a red head and a white belly and some long tail feathers'')
     = [''this is a small bird with a red head and a white belly and some'',
        ''long tail feathers'']
   \<and> caption_lines (drawCaption 640 ''a red bird'') = [''a red bird'']"
proof -
  let ?c = "''this is a small bird with a red head and a white belly and some long tail feathers''"
  have far: "\<forall>i. 60 \<le> i \<and> i < (63::nat) \<longrightarrow> ?c ! i \<noteq> CHR '' ''"
  proof (intro allI impI)
    fix i :: nat assume "60 \<le> i \<and> i < 63"
    then have "i = 60 \<or> i = 61 \<or> i = 62" by arith
    then show "?c ! i \<noteq> CHR '' ''" by auto
  qed
  have at: "(60::nat) \<le> 63 \<and> 63 < length ?c \<and> ?c ! 63 = CHR '' ''" by simp
  have short: "\<forall>i. 60 \<le> i \<and> i < length ''a red bird'' \<longrightarrow> ''a red bird'' ! i \<noteq> CHR '' ''"
    by simp
  have two: "caption_lines (drawCaption 640 ?c) = [take 63 ?c, drop (Suc 63) ?c]"
    using drawCaption_one_or_two_lines [of ?c 640 63] far at by blast
  have one: "caption_lines (drawCaption 640 ''a red bird'') = [''a red bird'']"
    using drawCaption_one_or_two_lines [of "''a red bird''" 640 0] short by blast
  from two one show ?thesis by simp
qed

section \<open>Properties of the checkpoint path\<close>

lemma py_find_ckpt_none:
  "py_find p ''.ckpt'' 0 = -1 \<longleftrightarrow> \<not> (\<exists>u v. p = u @ ''.ckpt'' @ v)"
proof -
  have "py_find p ''.ckpt'' 0 = -1 \<longleftrightarrow> \<not> (\<exists>j. occurs_at p ''.ckpt'' j)"
    by (simp add: py_find_none)
  then show ?thesis by (simp only: occurs_at_iff_infix)
qed

lemma main_unfold:
  fixes run :: "('e, 'i list, 's) generate" and embed_one :: "string \<Rightarrow> 'e" and s :: 's
  assumes "T = map normalize_fn texts" and "n = int (length T)"
    and "bs = np_minimum n (TEST_BATCH_SIZE config)"
    and "w0 = \<lparr>session = s, written = [], calls = []\<rparr>"
    and "sess = \<lparr>variables_loaded = False, run_state = s\<rparr>"
  shows "main run rows restore normalize_fn embed_one config caption_path save_dir_arg texts s
           = (if n \<le> 0 then Some (Some ValueError, w0)
              else case build_model restore sess bs (TEST_PRETRAINED_MODEL config) of
                     Inl e \<Rightarrow> Some (Some e, w0)
                   | Inr (built, sess') \<Rightarrow>
                       if \<not> variables_loaded sess'
                       then Some (Some FailedPreconditionError, w0)
                       else main_loop run rows (map embed_one T) T n bs
                              (save_dir_of save_dir_arg caption_path) 0 w0)"
  unfolding assms main_def Let_def by (simp split: sum.splits prod.splits)




section \<open>Properties of the check on the number of sentences\<close>

text \<open>C4, as amended: the run raises its \<open>ValueError\<close> when the caption file has no
  line at all (\<open>num_embeddings \<le> 0\<close>), before any model is built and before anything is
  written.\<close>

theorem main_zero_lines_raises:
  assumes "texts = []"
  shows "main run rows restore normalize_fn embed_one config caption_path save_dir_arg texts s
           = Some (Some ValueError, \<lparr>session = s, written = [], calls = []\<rparr>)"
  using assms by (simp add: main_def)

theorem main_zero_lines_raises_witness:
  "main (\<lambda>e (t::nat). ((map (\<lambda>x. 256) e, map (\<lambda>x. 64) e), Suc t)) (\<lambda>i::nat. i)
        (\<lambda>p. None) id length
        \<lparr>TEST_BATCH_SIZE = 64, TEST_PRETRAINED_MODEL = ''m/model.ckpt''\<rparr>
        ''data/captions.txt'' None [] 0
     = Some (Some ValueError, \<lparr>session = 0, written = [], calls = []\<rparr>)"
proof -
  have "([]::string list) = []" by simp
  from main_zero_lines_raises [OF this] show ?thesis .
qed

text \<open>C4 as stated fails: a file whose only line has no letter yields no image, and
  the run ends without an error.\<close>

theorem main_no_valid_sentence_counterexample:
  "main (\<lambda>e (t::nat). ((map (\<lambda>x. 256) e, map (\<lambda>x. 64) e), Suc t)) (\<lambda>i::nat. i)
        (\<lambda>p. None) id length
        \<lparr>TEST_BATCH_SIZE = 64, TEST_PRETRAINED_MODEL = ''m/model.ckpt''\<rparr>
        ''data/captions.txt'' None [''123''] 0
     = Some (None, \<lparr>session = 8, written = [],
                    calls = [\<lparr>b_count = 0, b_iend = 1, b_embeddings = [3],
                              b_texts = [''123'']\<rparr>]\<rparr>)"
  by code_simp

section \<open>Properties of the conditioning codes\<close>

lemma truncated_draw_returns:
  "abs (fst (normal (((\<lambda>t. snd (normal t)) ^^ k) r))) \<le> 2 \<Longrightarrow>
     \<exists>x r'. truncated_draw normal r = Some (x, r') \<and> abs x \<le> 2"
proof (induction k arbitrary: r)
  case 0
  obtain x r' where n: "normal r = (x, r')" by (metis surj_pair)
  then have b: "abs x \<le> 2" using 0 by simp
  then have "truncated_draw normal r = Some (x, r')"
    using n by (subst truncated_draw.simps) simp
  then show ?case using b by blast
next
  case (Suc k)
  obtain x r' where n: "normal r = (x, r')" by (metis surj_pair)
  show ?case
  proof (cases "abs x \<le> 2")
    case True
    then have "truncated_draw normal r = Some (x, r')"
      using n by (subst truncated_draw.simps) simp
    then show ?thesis using True by blast
  next
    case False
    define F where "F = (\<lambda>t. snd (normal t))"
    have "(F ^^ Suc k) r = (F ^^ k) (F r)" by (simp add: funpow_swap1)
    moreover have "F r = r'" using n by (simp add: F_def)
    ultimately have "abs (fst (normal ((F ^^ k) r'))) \<le> 2"
      using Suc.prems by (simp add: F_def)
    then have "\<exists>y r''. truncated_draw normal r' = Some (y, r'') \<and> abs y \<le> 2"
      unfolding F_def by (rule Suc.IH)
    moreover have "truncated_draw normal r = truncated_draw normal r'"
      using n False by (subst truncated_draw.simps) simp
    ultimately show ?thesis by simp
  qed
qed

lemma truncated_normal_returns:
  assumes "keeps_giving normal"
  shows "\<exists>eps r'. truncated_normal normal m r = Some (eps, r') \<and> length eps = m
           \<and> (\<forall>x\<in>set eps. abs x \<le> 2)"
proof (induction m arbitrary: r)
  case 0
  show ?case by simp
next
  case (Suc m)
  obtain k where k: "abs (fst (normal (((\<lambda>t. snd (normal t)) ^^ k) r))) \<le> 2"
    using assms unfolding keeps_giving_def by blast
  obtain x r1 where d: "truncated_draw normal r = Some (x, r1)" "abs x \<le> 2"
    using truncated_draw_returns [of normal k r] k by blast
  obtain eps r2 where t: "truncated_normal normal m r1 = Some (eps, r2)" "length eps = m"
    "\<forall>x\<in>set eps. abs x \<le> 2"
    using Suc.IH [of r1] by blast
  have "truncated_normal normal (Suc m) r = Some (x # eps, r2)"
    using d(1) t(1) by simp
  then show ?case using d(2) t(2,3) by simp
qed

lemma length_random_normal: "length (fst (random_normal normal m r)) = m"
proof (induction m arbitrary: r)
  case 0
  show ?case by simp
next
  case (Suc m)
  obtain x r' where n: "normal r = (x, r')" by (metis surj_pair)
  obtain xs r'' where t: "random_normal normal m r' = (xs, r'')" by (metis surj_pair)
  have "length xs = m" using Suc.IH [of r'] t by simp
  then show ?case using n t by simp
qed

lemma code_entries:
  "map (\<lambda>(m, sd, e). m + sd * e) (zip (map fst xs) (zip (map (\<lambda>p. exp (snd p)) xs) es))
     = map (\<lambda>((m, ls), e). m + exp ls * e) (zip xs es)"
proof (induction xs arbitrary: es)
  case Nil
  show ?case by simp
next
  case (Cons x xs)
  show ?case
  proof (cases es)
    case Nil
    then show ?thesis by simp
  next
    case (Cons e es')
    then show ?thesis using Cons.IH [of es'] by (cases x) simp
  qed
qed

lemma sample_encoded_context_augmented:
  assumes "keeps_giving normal"
  shows "\<exists>eps r'. truncated_normal normal (length (gc emb)) r = Some (eps, r')
           \<and> length eps = length (gc emb) \<and> (\<forall>x\<in>set eps. abs x \<le> 2)
           \<and> sample_encoded_context normal gc emb True r
               = Some (map (\<lambda>((m, ls), e). m + exp ls * e) (zip (gc emb) eps), r')"
proof -
  obtain eps r' where t: "truncated_normal normal (length (gc emb)) r = Some (eps, r')"
    "length eps = length (gc emb)" "\<forall>x\<in>set eps. abs x \<le> 2"
    using truncated_normal_returns [OF assms, of "length (gc emb)" r] by blast
  have "sample_encoded_context normal gc emb True r
               = Some (map (\<lambda>((m, ls), e). m + exp ls * e) (zip (gc emb) eps), r')"
    using t(1) by (simp add: sample_encoded_context_def Let_def code_entries)
  then show ?thesis using t by blast
qed

text \<open>C5, as amended: the noise is not a Gaussian draw but a truncated one: each entry
  is the first value of the Gaussian source within 2 standard deviations, the values
  beyond being dropped. On a source that keeps giving such values, with augmentation
  the conditioning code is \<open>mean + exp(log sigma) * epsilon\<close>, entry by entry, for such a
  draw \<open>epsilon\<close> of the shape of the mean, every entry of which is at most 2 in
  magnitude; without augmentation it is the mean itself and nothing is drawn. The model
  graph computes one code under the scope \<open>g_net\<close>, then draws \<open>z\<close>, then computes one
  code under \<open>hr_g_net\<close>, each code from the variables of its own scope and from its
  own draw.\<close>

theorem sample_encoded_context_codes:
  assumes "keeps_giving normal"
  shows "sample_encoded_context normal gc emb False r = Some (map fst (gc emb), r)
   \<and> (\<exists>eps r'. truncated_normal normal (length (gc emb)) r = Some (eps, r')
         \<and> length eps = length (gc emb) \<and> (\<forall>x\<in>set eps. abs x \<le> 2)
         \<and> sample_encoded_context normal gc emb True r
             = Some (map (\<lambda>((m, ls), e). m + exp ls * e) (zip (gc emb) eps), r'))
   \<and> (\<exists>c r1 z r2 hr_c r3.
         sample_encoded_context normal (gcp (variables ''g_net'')) emb True r = Some (c, r1)
         \<and> random_normal normal z_size r1 = (z, r2)
         \<and> sample_encoded_context normal (gcp (variables ''hr_g_net'')) emb True r2
             = Some (hr_c, r3)
         \<and> conditioning_codes normal gcp variables z_size emb r = Some ((c, z, hr_c), r3))"
proof -
  have a: "sample_encoded_context normal gc emb False r = Some (map fst (gc emb), r)"
    by (simp add: sample_encoded_context_def Let_def)
  obtain c r1 where c: "sample_encoded_context normal (gcp (variables ''g_net'')) emb True r
                          = Some (c, r1)"
    using sample_encoded_context_augmented [OF assms, of "gcp (variables ''g_net'')" emb r]
    by blast
  obtain z r2 where z: "random_normal normal z_size r1 = (z, r2)" by (metis surj_pair)
  obtain hr_c r3 where h: "sample_encoded_context normal (gcp (variables ''hr_g_net'')) emb
                             True r2 = Some (hr_c, r3)"
    using sample_encoded_context_augmented [OF assms, of "gcp (variables ''hr_g_net'')" emb r2]
    by blast
  have "conditioning_codes normal gcp variables z_size emb r = Some ((c, z, hr_c), r3)"
    using c z h by (simp add: conditioning_codes_def)
  then show ?thesis
    using a sample_encoded_context_augmented [OF assms, of gc emb r] c z h by blast
qed

theorem sample_encoded_context_codes_witness:
  "keeps_giving (\<lambda>k::nat. (if k = 0 then 3 else 1 / 2, Suc k))
   \<and> sample_encoded_context (\<lambda>k::nat. (if k = 0 then 3 else 1 / 2, Suc k))
        (\<lambda>e. [(10, 0)]) [] False 0 = Some ([10], 0)
   \<and> sample_encoded_context (\<lambda>k::nat. (if k = 0 then 3 else 1 / 2, Suc k))
        (\<lambda>e. [(10, 0)]) [] True 0 = Some ([21 / 2], 2)
   \<and> conditioning_codes (\<lambda>k::nat. (if k = 0 then 3 else 1 / 2, Suc k))
        (\<lambda>(p::real) e. [(p, 0)]) (\<lambda>name. if name = ''g_net'' then 10 else 20) 2 [] 0
       = Some (([21 / 2], [1 / 2, 1 / 2], [41 / 2]), 5)"
proof -
  let ?src = "\<lambda>k::nat. (if k = 0 then (3::real) else 1 / 2, Suc k)"
  let ?gcp = "\<lambda>(p::real) (e::tensor). [(p, 0::real)]"
  let ?vars = "\<lambda>name. if name = ''g_net'' then (10::real) else 20"
  have kg: "keeps_giving ?src"
    unfolding keeps_giving_def by (intro allI exI [of _ 1]) simp
  have d0: "truncated_draw ?src 0 = Some (1 / 2, 2)"
    by (subst truncated_draw.simps, simp, subst truncated_draw.simps, simp)
  have d4: "truncated_draw ?src 4 = Some (1 / 2, 5)"
    by (subst truncated_draw.simps) simp
  have c: "sample_encoded_context ?src (?gcp (?vars ''g_net'')) [] True 0 = Some ([21 / 2], 2)"
    by (simp add: sample_encoded_context_def d0)
  have z: "random_normal ?src 2 2 = ([1 / 2, 1 / 2], 4)"
    by (simp add: numeral_2_eq_2)
  have h: "sample_encoded_context ?src (?gcp (?vars ''hr_g_net'')) [] True 4
             = Some ([41 / 2], 5)"
    by (simp add: sample_encoded_context_def d4)
  from sample_encoded_context_codes [OF kg, of "\<lambda>e. [(10, 0)]" "[]" 0 ?gcp ?vars 2]
  obtain c' r1 z' r2 hr_c r3 where
    f: "sample_encoded_context ?src (\<lambda>e. [(10, 0)]) [] False 0 = Some ([10], 0)"
    and g: "sample_encoded_context ?src (?gcp (?vars ''g_net'')) [] True 0 = Some (c', r1)"
      "random_normal ?src 2 r1 = (z', r2)"
      "sample_encoded_context ?src (?gcp (?vars ''hr_g_net'')) [] True r2 = Some (hr_c, r3)"
      "conditioning_codes ?src ?gcp ?vars 2 [] 0 = Some ((c', z', hr_c), r3)"
    by auto
  have "c' = [21 / 2]" "r1 = 2" using g(1) c by simp_all
  then have "z' = [1 / 2, 1 / 2]" "r2 = 4" using g(2) z by simp_all
  then have "hr_c = [41 / 2]" "r3 = 5" using g(3) h by simp_all
  then have cc: "conditioning_codes ?src ?gcp ?vars 2 [] 0
                   = Some (([21 / 2], [1 / 2, 1 / 2], [41 / 2]), 5)"
    using g(4) \<open>c' = [21 / 2]\<close> \<open>z' = [1 / 2, 1 / 2]\<close> by simp
  have c2: "sample_encoded_context ?src (\<lambda>e. [(10, 0)]) [] True 0 = Some ([21 / 2], 2)"
    using c by simp
  from kg f c2 cc show ?thesis by blast
qed

text \<open>C5 as stated fails: when the first Gaussian value is 3, the code is not
  \<open>mean + exp(log sigma) * 3 = 13\<close>; the value 3 is dropped and the next one, 1/2,
  is used.\<close>

theorem sample_encoded_context_gaussian_counterexample:
  "sample_encoded_context (\<lambda>k::nat. (if k = 0 then 3 else 1 / 2, Suc k))
        (\<lambda>e. [(10, 0)]) [] True 0 = Some ([21 / 2], 2)
   \<and> fst ((\<lambda>k::nat. (if k = 0 then (3::real) else 1 / 2, Suc k)) 0) = 3
   \<and> [10 + exp 0 * (3::real)] = [13]"
proof -
  let ?src = "\<lambda>k::nat. (if k = 0 then (3::real) else 1 / 2, Suc k)"
  have d0: "truncated_draw ?src 0 = Some (1 / 2, 2)"
    by (subst truncated_draw.simps, simp, subst truncated_draw.simps, simp)
  show ?thesis by (simp add: sample_encoded_context_def d0)
qed

section \<open>Properties of the token matrix\<close>

lemma reshape_rows_id_aux:
  "0 < k \<Longrightarrow> \<forall>r\<in>set x. length r = k \<Longrightarrow>
     length (concat x) = length x * k
     \<and> map (\<lambda>i. take k (drop (i * k) (concat x))) [0 ..< length x] = x"
proof (induction x)
  case Nil
  show ?case by simp
next
  case (Cons r x)
  have r: "length r = k" using Cons.prems by simp
  have ih: "length (concat x) = length x * k"
    "map (\<lambda>i. take k (drop (i * k) (concat x))) [0 ..< length x] = x"
    using Cons by simp_all
  have "map (\<lambda>i. take k (drop (i * k) (concat (r # x)))) [0 ..< length (r # x)]
        = take k (r @ concat x)
          # map (\<lambda>i. take k (drop (Suc i * k) (r @ concat x))) [0 ..< length x]"
    by (simp add: map_upt_Suc del: upt_Suc)
  also have "\<dots> = r # map (\<lambda>i. take k (drop (i * k) (concat x))) [0 ..< length x]"
    using r by simp
  finally show ?case using ih r by simp
qed

lemma reshape_rows_id:
  assumes "0 < k" and "\<forall>r\<in>set x. length r = k"
  shows "reshape_rows x k = Inr x"
proof -
  from reshape_rows_id_aux [OF assms]
  have l: "length (concat x) = length x * k"
    and m: "map (\<lambda>i. take k (drop (i * k) (concat x))) [0 ..< length x] = x"
    by simp_all
  show ?thesis using assms(1) l m by (simp add: reshape_rows_def)
qed

lemma pad_sequences_rows: "\<forall>r\<in>set (pad_sequences x k). length r = k"
  by (auto simp: pad_sequences_def)

text \<open>C10, as amended: \<open>embed\<close> takes a list of strings or a single string, which it
  treats as the list of that one string; for \<open>maxlen \<ge> 1\<close> the token matrix it feeds to
  the graph has one row per text, every row of length \<open>maxlen\<close>: the token sequence, as
  32 bit integers, cut after \<open>maxlen\<close> entries and filled with zeros at the end. The
  default \<open>maxlen\<close> is 400.\<close>

theorem token_matrix_rows:
  assumes "0 < maxlen self"
  shows "token_matrix self (Seq ts) =
           Inr (map (\<lambda>t. map of_nat (take (maxlen self) (tokenizer self t))
                          @ replicate (maxlen self - length (tokenizer self t)) 0) ts)
       \<and> token_matrix self (Str t) = token_matrix self (Seq [t])
       \<and> (\<exists>x. token_matrix self (Seq ts) = Inr x \<and> length x = length ts
              \<and> (\<forall>r\<in>set x. length r = maxlen self))
       \<and> maxlen (Model_init tok None) = 400"
proof -
  have a: "token_matrix self (Seq ts) =
           Inr (map (\<lambda>t. map of_nat (take (maxlen self) (tokenizer self t))
                          @ replicate (maxlen self - length (tokenizer self t)) 0) ts)"
    using reshape_rows_id [OF assms pad_sequences_rows, of "map (tokenizer self) ts"]
    by (simp add: token_matrix_def pad_sequences_def comp_def)
  have b: "token_matrix self (Str t) = token_matrix self (Seq [t])"
    by (simp add: token_matrix_def)
  have c: "maxlen (Model_init tok None) = 400"
    by (simp add: Model_init_def MAX_SENT_LENGTH_def)
  from a b c show ?thesis by auto
qed

theorem token_matrix_rows_witness:
  "token_matrix \<lparr>tokenizer = map of_char, maxlen = 4\<rparr> (Seq [''ab'', ''abcdef''])
     = Inr [[97, 98, 0, 0], [97, 98, 99, 100]]
   \<and> token_matrix \<lparr>tokenizer = map of_char, maxlen = 4\<rparr> (Str ''ab'') = Inr [[97, 98, 0, 0]]"
proof -
  have h: "0 < maxlen \<lparr>tokenizer = map of_char, maxlen = 4\<rparr>" by simp
  from token_matrix_rows [OF h, of "[''ab'', ''abcdef'']" "''ab''"]
    token_matrix_rows [OF h, of "[''ab'']" "''ab''"]
  show ?thesis by (simp add: numeral_2_eq_2)
qed

text \<open>C10 as stated fails for \<open>maxlen = 0\<close>: the rows are empty, the reshaping cannot
  infer their number and raises, so no matrix is produced.\<close>

theorem token_matrix_rows_counterexample:
  "token_matrix \<lparr>tokenizer = map of_char, maxlen = 0\<rparr> (Seq [''ab'']) = Inl ValueError"
  by (simp add: token_matrix_def pad_sequences_def reshape_rows_def)

section \<open>Facts about one pass of the batching loop\<close>

lemma py_slice_inside:
  assumes "0 \<le> i" "i \<le> j" "j \<le> int (length xs)"
  shows "py_slice xs i j = take (nat (j - i)) (drop (nat i) xs)"
    and "length (py_slice xs i j) = nat (j - i)"
proof -
  have lo: "slice_bound (length xs) i = nat i"
    using assms by (auto simp: slice_bound_def)
  have hi: "slice_bound (length xs) j = nat j"
    using assms by (auto simp: slice_bound_def)
  have d: "nat j - nat i = nat (j - i)" using assms by (simp add: nat_diff_distrib)
  show "py_slice xs i j = take (nat (j - i)) (drop (nat i) xs)"
    by (simp add: py_slice_def lo hi d)
  then show "length (py_slice xs i j) = nat (j - i)"
    using assms by (simp add: min_def) linarith
qed

lemma py_slice_nth:
  assumes "0 \<le> i" "i \<le> j" "j \<le> int (length xs)" "k < nat (j - i)"
  shows "py_slice xs i j ! k = xs ! (nat i + k)"
  using assms by (simp add: py_slice_inside(1))

lemma py_index_inside:
  "0 \<le> j \<Longrightarrow> j < int (length xs) \<Longrightarrow> py_index xs j = Inr (xs ! nat j)"
  by (simp add: py_index_def)

lemma set_py_range: "set (py_range k) = {j. 0 \<le> j \<and> j < k}"
proof -
  have "j \<in> int ` {0 ..< nat k} \<longleftrightarrow> 0 \<le> j \<and> j < k" for j
  proof
    assume "j \<in> int ` {0 ..< nat k}"
    then show "0 \<le> j \<and> j < k" by auto
  next
    assume "0 \<le> j \<and> j < k"
    then have "nat j \<in> {0 ..< nat k}" "j = int (nat j)" by auto
    then show "j \<in> int ` {0 ..< nat k}" by blast
  qed
  then show ?thesis by (auto simp: py_range_def)
qed

lemma group_indices_range: "i \<in> set (group_indices num) \<Longrightarrow> 0 \<le> i \<and> i < int num"
  by (auto simp: group_indices_def set_py_range np_minimum_def split: if_splits)

lemma sample_at_inside:
  assumes "0 \<le> i" "i < int (length batchs)" "0 \<le> j" "j < int (length (batchs ! nat i))"
  shows "sample_at batchs i j = Inr (batchs ! nat i ! nat j)"
  using assms by (simp add: sample_at_def py_index_inside)

lemma gather_inside:
  assumes "\<forall>i\<in>set ixs. 0 \<le> i \<and> i < int (length lr)"
    and "length hr = length lr"
    and "\<forall>b\<in>set lr \<union> set hr. j < int (length b)" and "0 \<le> j"
  shows "\<exists>r. gather lr hr j ixs = Inr r"
  using assms(1)
proof (induction ixs)
  case Nil
  show ?case by simp
next
  case (Cons i ixs)
  have i: "0 \<le> i" "i < int (length lr)" "i < int (length hr)"
    using Cons.prems assms(2) by simp_all
  have "lr ! nat i \<in> set lr" "hr ! nat i \<in> set hr" using i by simp_all
  then have "j < int (length (lr ! nat i))" "j < int (length (hr ! nat i))"
    using assms(3) by blast+
  then have "sample_at lr i j = Inr (lr ! nat i ! nat j)"
    "sample_at hr i j = Inr (hr ! nat i ! nat j)"
    using i assms(4) by (simp_all add: sample_at_inside)
  moreover obtain r where "gather lr hr j ixs = Inr r"
    using Cons.IH Cons.prems by auto
  ultimately show ?case by simp
qed

lemma save_loop_inside:
  assumes "\<forall>j\<in>set js. 0 \<le> j \<and> j < int (length tb)"
    and "length hr = length lr"
    and "\<forall>b\<in>set lr \<union> set hr. length b = length tb"
  shows "save_loop ir lr hr tb sid sd js imgs fs =
           (Inr (imgs @ map (\<lambda>j. drawCaption (superimage_height ir (length lr)) (tb ! nat j))
                          (filter (\<lambda>j. re_search_alpha (tb ! nat j)) js)),
            fs @ (if sd \<noteq> []
                  then map (\<lambda>j. fullpath_of sd (sid + j))
                         (filter (\<lambda>j. re_search_alpha (tb ! nat j)) js)
                  else []))"
  using assms(1)
proof (induction js arbitrary: imgs fs)
  case Nil
  show ?case by simp
next
  case (Cons j js)
  have j: "0 \<le> j" "j < int (length tb)" using Cons.prems by simp_all
  have t: "py_index tb j = Inr (tb ! nat j)"
    using j by (simp add: py_index_inside)
  have rest: "\<forall>j\<in>set js. 0 \<le> j \<and> j < int (length tb)"
    using Cons.prems by simp
  have "\<forall>b\<in>set lr \<union> set hr. j < int (length b)" using assms(3) j by auto
  then obtain r where g: "gather lr hr j (group_indices (length lr)) = Inr r"
    using gather_inside [of "group_indices (length lr)" lr hr j] assms(2) j(1)
      group_indices_range [of _ "length lr"] by blast
  show ?case
    by (simp add: t g Cons.IH [OF rest] Let_def)
qed

lemma generate_loop_rows:
  assumes "one_image_per_row run"
    and "\<forall>b\<in>set hs \<union> set ls. length b = length e"
  shows "\<forall>b\<in>set (fst (fst (generate_loop run e js (hs, ls) s)))
             \<union> set (snd (fst (generate_loop run e js (hs, ls) s))). length b = length e"
  using assms(2)
proof (induction js arbitrary: hs ls s)
  case Nil
  then show ?case by simp
next
  case (Cons j js)
  obtain h l s' where r: "run e s = ((h, l), s')" by (metis surj_pair)
  have "length h = length e" "length l = length e"
    using assms(1) r unfolding one_image_per_row_def by (metis fst_conv snd_conv)+
  then have "\<forall>b\<in>set (hs @ [h]) \<union> set (ls @ [l]). length b = length e"
    using Cons.prems by auto
  from Cons.IH [OF this, of s'] show ?case using r by simp
qed

lemma generate_n_8:
  assumes "one_image_per_row run"
  shows "length (fst (fst (generate_n run e 8 s))) = 8"
    and "length (snd (fst (generate_n run e 8 s))) = 8"
    and "\<forall>b\<in>set (fst (fst (generate_n run e 8 s))) \<union> set (snd (fst (generate_n run e 8 s))).
           length b = length e"
proof -
  show "length (fst (fst (generate_n run e 8 s))) = 8"
    "length (snd (fst (generate_n run e 8 s))) = 8"
    using generate_loop_lengths [of run e "py_range 8" "[]" "[]" s]
    by (simp_all add: generate_n_def np_minimum_def length_py_range)
  show "\<forall>b\<in>set (fst (fst (generate_n run e 8 s))) \<union> set (snd (fst (generate_n run e 8 s))).
           length b = length e"
    unfolding generate_n_def
    by (rule generate_loop_rows [OF assms]) simp
qed

lemma batch_bounds_inside:
  assumes "1 \<le> bs" "bs \<le> n" "0 \<le> c" "c < n"
  shows "0 \<le> fst (batch_bounds n bs c)"
    and "fst (batch_bounds n bs c) \<le> c"
    and "c < snd (batch_bounds n bs c)"
    and "snd (batch_bounds n bs c) \<le> n"
    and "snd (batch_bounds n bs c) = fst (batch_bounds n bs c) + bs"
  using assms by (auto simp: batch_bounds_def Let_def)

lemma loop_body_inside:
  assumes "1 \<le> bs" "bs \<le> n" "length E = nat n" "length T = nat n" "0 \<le> c" "c < n"
    and run: "one_image_per_row run"
  shows "loop_body run rows E T n bs sd c w =
           (None, snd (batch_bounds n bs c),
            \<lparr>session = snd (generate_n run
                 (py_slice E (fst (batch_bounds n bs c)) (snd (batch_bounds n bs c))) 8
                 (session w)),
             written = written w @
               (if sd \<noteq> []
                then map (\<lambda>j. fullpath_of sd (fst (batch_bounds n bs c) + j))
                       (filter (\<lambda>j. re_search_alpha
                           (py_slice T (fst (batch_bounds n bs c)) (snd (batch_bounds n bs c))
                              ! nat j))
                         (py_range bs))
                else []),
             calls = calls w @
               [\<lparr>b_count = fst (batch_bounds n bs c), b_iend = snd (batch_bounds n bs c),
                 b_embeddings =
                   py_slice E (fst (batch_bounds n bs c)) (snd (batch_bounds n bs c)),
                 b_texts =
                   py_slice T (fst (batch_bounds n bs c)) (snd (batch_bounds n bs c))\<rparr>]\<rparr>)"
proof -
  define c' where "c' = fst (batch_bounds n bs c)"
  define iend where "iend = snd (batch_bounds n bs c)"
  have bb: "batch_bounds n bs c = (c', iend)" by (simp add: c'_def iend_def)
  have b: "0 \<le> c'" "c' \<le> c" "c < iend" "iend \<le> n" "iend = c' + bs"
    using batch_bounds_inside [OF assms(1,2,5,6)] by (simp_all add: c'_def iend_def)
  define tb where "tb = py_slice T c' iend"
  define eb where "eb = py_slice E c' iend"
  have ltb: "length tb = nat bs"
    unfolding tb_def using py_slice_inside(2) [of c' iend T] b assms(4) by simp
  have leb: "length eb = nat bs"
    unfolding eb_def using py_slice_inside(2) [of c' iend E] b assms(3) by simp
  obtain hr lr s' where g: "generate_n run eb 8 (session w) = ((hr, lr), s')"
    by (metis surj_pair)
  have sz: "length hr = 8" "length lr = 8" "\<forall>b\<in>set lr \<union> set hr. length b = length tb"
    using generate_n_8 [OF run, of eb "session w"] g leb ltb by auto
  have "hr ! 0 \<in> set hr" using sz(1) by simp
  then have "length (hr ! 0) = nat bs" using sz(3) ltb by auto
  then have s0: "sample_at hr 0 0 = Inr (hr ! 0 ! 0)"
    using sample_at_inside [of 0 hr 0] sz(1) assms(1) by simp
  have js: "\<forall>j\<in>set (py_range bs). 0 \<le> j \<and> j < int (length tb)"
    using ltb assms(1) by (simp add: set_py_range)
  have hl: "length hr = length lr" using sz by simp
  have sv: "save_super_images rows lr hr tb bs c' sd (written w) =
          (Inr ([] @ map (\<lambda>j. drawCaption (superimage_height (rows (hr ! 0 ! 0)) (length lr))
                                 (tb ! nat j))
                          (filter (\<lambda>j. re_search_alpha (tb ! nat j)) (py_range bs))),
           written w @ (if sd \<noteq> []
                  then map (\<lambda>j. fullpath_of sd (c' + j))
                         (filter (\<lambda>j. re_search_alpha (tb ! nat j)) (py_range bs))
                  else []))"
    unfolding save_super_images_def s0
    using save_loop_inside [OF js hl sz(3)] by simp
  have "loop_body run rows E T n bs sd c w =
          (None, c' + bs,
           \<lparr>session = s',
            written = written w @ (if sd \<noteq> []
                  then map (\<lambda>j. fullpath_of sd (c' + j))
                         (filter (\<lambda>j. re_search_alpha (tb ! nat j)) (py_range bs))
                  else []),
            calls = calls w @ [\<lparr>b_count = c', b_iend = iend,
                 b_embeddings = eb, b_texts = tb\<rparr>]\<rparr>)"
    unfolding loop_body_def bb
    using g sv by (simp add: tb_def [symmetric] eb_def [symmetric] Let_def)
  moreover have "s' = snd (generate_n run eb 8 (session w))"
    using g by simp
  ultimately show ?thesis
    using b(5) by (simp add: c'_def [symmetric] iend_def [symmetric] tb_def eb_def)
qed

section \<open>An invariant rule for the batching loop\<close>

lemma main_loop_invariant:
  assumes bs: "1 \<le> bs" "bs \<le> n" and E: "length E = nat n" and T: "length T = nat n"
    and run: "one_image_per_row run"
    and c: "0 \<le> c" and I: "I c w"
    and step: "\<And>c w c2 w2. 0 \<le> c \<Longrightarrow> c < n \<Longrightarrow> I c w \<Longrightarrow>
                 loop_body run rows E T n bs sd c w = (None, c2, w2) \<Longrightarrow> I c2 w2"
  shows "\<exists>w' c'. main_loop run rows E T n bs sd c w = Some (None, w') \<and> n \<le> c' \<and> I c' w'"
  using c I
proof (induction "nat (n - c)" arbitrary: c w rule: less_induct)
  case less
  show ?case
  proof (cases "c < n")
    case False
    then have "main_loop run rows E T n bs sd c w = Some (None, w)"
      by (subst main_loop.simps) simp
    then show ?thesis using False less.prems(2) by (intro exI [of _ w] exI [of _ c]) simp
  next
    case True
    obtain w2 where lb: "loop_body run rows E T n bs sd c w = (None, snd (batch_bounds n bs c), w2)"
      using loop_body_inside [OF bs E T less.prems(1) True run, of rows sd w] by blast
    define c2 where "c2 = snd (batch_bounds n bs c)"
    have c2: "c < c2" "c2 \<le> n"
      using batch_bounds_inside(3,4) [OF bs less.prems(1) True] by (simp_all add: c2_def)
    have I2: "I c2 w2"
      using step [OF less.prems(1) True less.prems(2)] lb by (simp add: c2_def)
    have m: "nat (n - c2) < nat (n - c)" using c2 True by simp
    have "0 \<le> c2" using c2 less.prems(1) by simp
    from less.hyps [OF m this I2]
    obtain w' c' where r: "main_loop run rows E T n bs sd c2 w2 = Some (None, w')"
      "n \<le> c'" "I c' w'" by blast
    have "main_loop run rows E T n bs sd c w = main_loop run rows E T n bs sd c2 w2"
      using True lb by (subst main_loop.simps) (simp add: c2_def)
    then show ?thesis using r by auto
  qed
qed

section \<open>File names are distinct for distinct sentence numbers\<close>

lemma digits_of_nonempty: "digits_of n \<noteq> []"
  by (subst digits_of.simps) simp

lemma digit_char_inj:
  assumes "a < 10" "b < 10" "char_of (48 + a) = (char_of (48 + b) :: char)"
  shows "a = (b::nat)"
proof -
  have "of_char (char_of (48 + a) :: char) = (of_char (char_of (48 + b) :: char) :: nat)"
    using assms(3) by simp
  then have "(48 + a) mod 256 = (48 + b) mod 256" by (simp only: of_char_of)
  then show ?thesis using assms(1,2) by simp
qed

lemma digits_of_inj: "digits_of n = digits_of m \<Longrightarrow> n = m"
proof (induction n arbitrary: m rule: digits_of.induct)
  case (1 n)
  show ?case
  proof (cases "n < 10")
    case n: True
    show ?thesis
    proof (cases "m < 10")
      case True
      then show ?thesis
        using "1.prems" n digit_char_inj [of n m]
        by (simp add: digits_of.simps [of n] digits_of.simps [of m])
    next
      case False
      then have "length (digits_of m) \<ge> 2"
        using digits_of_nonempty [of "m div 10"]
        by (cases "digits_of (m div 10)") (simp_all add: digits_of.simps [of m])
      moreover have "length (digits_of n) = 1" using n by (simp add: digits_of.simps [of n])
      ultimately show ?thesis using "1.prems" by simp
    qed
  next
    case n: False
    show ?thesis
    proof (cases "m < 10")
      case True
      have "length (digits_of n) \<ge> 2"
        using digits_of_nonempty [of "n div 10"] n
        by (cases "digits_of (n div 10)") (simp_all add: digits_of.simps [of n])
      moreover have "length (digits_of m) = 1" using True by (simp add: digits_of.simps [of m])
      ultimately show ?thesis using "1.prems" by simp
    next
      case False
      have e: "digits_of (n div 10) @ [char_of (48 + n mod 10)]
               = digits_of (m div 10) @ [char_of (48 + m mod 10)]"
        using "1.prems" n False by (simp add: digits_of.simps [of n] digits_of.simps [of m])
      then have d: "digits_of (n div 10) = digits_of (m div 10)"
        and l: "char_of (48 + n mod 10) = (char_of (48 + m mod 10) :: char)"
        by simp_all
      have "n div 10 = m div 10" using "1.IH" [OF n d] .
      moreover have "n mod 10 = m mod 10"
        using digit_char_inj [OF _ _ l] by simp
      ultimately show ?thesis by (metis div_mult_mod_eq)
    qed
  qed
qed

lemma fullpath_of_inj:
  assumes "0 \<le> a" "0 \<le> b" "fullpath_of sd a = fullpath_of sd b"
  shows "a = b"
proof -
  have "fmt_d a = fmt_d b" using assms(3) by (simp add: fullpath_of_def)
  then have "digits_of (nat a) = digits_of (nat b)" using assms(1,2) by (simp add: fmt_d_def)
  then have "nat a = nat b" by (rule digits_of_inj)
  then show ?thesis using assms(1,2) by simp
qed

section \<open>What every pass of the batching loop hands on\<close>

lemma batch_bounds_snd: "snd (batch_bounds n bs c) = fst (batch_bounds n bs c) + bs"
  by (simp add: batch_bounds_def Let_def)

lemma loop_body_calls:
  "\<exists>e c2 w2. loop_body run rows E T n bs sd c w = (e, c2, w2)
      \<and> (e = None \<longrightarrow> c2 = snd (batch_bounds n bs c))
      \<and> calls w2 = calls w @
           [\<lparr>b_count = fst (batch_bounds n bs c), b_iend = snd (batch_bounds n bs c),
             b_embeddings = py_slice E (fst (batch_bounds n bs c)) (snd (batch_bounds n bs c)),
             b_texts = py_slice T (fst (batch_bounds n bs c)) (snd (batch_bounds n bs c))\<rparr>]"
proof -
  define c' where "c' = fst (batch_bounds n bs c)"
  define iend where "iend = snd (batch_bounds n bs c)"
  have bb: "batch_bounds n bs c = (c', iend)" by (simp add: c'_def iend_def)
  have ie: "iend = c' + bs" by (simp add: c'_def iend_def batch_bounds_snd)
  obtain hr lr s' where g: "generate_n run (py_slice E c' iend) 8 (session w) = ((hr, lr), s')"
    by (metis surj_pair)
  obtain r fs where sv: "save_super_images rows lr hr (py_slice T c' iend) bs c' sd (written w)
                          = (r, fs)"
    by (metis surj_pair)
  show ?thesis
  proof (cases r)
    case (Inl e)
    then have "loop_body run rows E T n bs sd c w =
        (Some e, c', \<lparr>session = s', written = fs, calls = calls w @
           [\<lparr>b_count = c', b_iend = iend, b_embeddings = py_slice E c' iend,
             b_texts = py_slice T c' iend\<rparr>]\<rparr>)"
      using g sv by (simp add: loop_body_def bb Let_def)
    then show ?thesis by (simp add: c'_def iend_def)
  next
    case (Inr imgs)
    then have "loop_body run rows E T n bs sd c w =
        (None, iend, \<lparr>session = s', written = fs, calls = calls w @
           [\<lparr>b_count = c', b_iend = iend, b_embeddings = py_slice E c' iend,
             b_texts = py_slice T c' iend\<rparr>]\<rparr>)"
      using g sv ie by (simp add: loop_body_def bb Let_def)
    then show ?thesis by (simp add: c'_def iend_def)
  qed
qed

lemma main_loop_calls:
  assumes bs: "1 \<le> bs" "bs \<le> n"
    and c: "0 \<le> c"
    and step: "\<And>c. 0 \<le> c \<Longrightarrow> c < n \<Longrightarrow>
       G \<lparr>b_count = fst (batch_bounds n bs c), b_iend = snd (batch_bounds n bs c),
          b_embeddings = py_slice E (fst (batch_bounds n bs c)) (snd (batch_bounds n bs c)),
          b_texts = py_slice T (fst (batch_bounds n bs c)) (snd (batch_bounds n bs c))\<rparr>"
  shows "\<exists>e w' new. main_loop run rows E T n bs sd c w = Some (e, w')
           \<and> calls w' = calls w @ new \<and> (\<forall>b\<in>set new. G b) \<and> (c < n \<longrightarrow> new \<noteq> [])"
  using c
proof (induction "nat (n - c)" arbitrary: c w rule: less_induct)
  case less
  show ?case
  proof (cases "c < n")
    case False
    then have "main_loop run rows E T n bs sd c w = Some (None, w)"
      by (subst main_loop.simps) simp
    then show ?thesis using False by simp
  next
    case True
    define call where "call =
           \<lparr>b_count = fst (batch_bounds n bs c), b_iend = snd (batch_bounds n bs c),
             b_embeddings = py_slice E (fst (batch_bounds n bs c)) (snd (batch_bounds n bs c)),
             b_texts = py_slice T (fst (batch_bounds n bs c)) (snd (batch_bounds n bs c))\<rparr>"
    obtain e c2 w2 where lb: "loop_body run rows E T n bs sd c w = (e, c2, w2)"
      and c2: "e = None \<longrightarrow> c2 = snd (batch_bounds n bs c)"
      and w2: "calls w2 = calls w @ [call]"
      using loop_body_calls [of run rows E T n bs sd c w] unfolding call_def by blast
    have G: "G call" using step [OF less.prems True] by (simp add: call_def)
    show ?thesis
    proof (cases e)
      case (Some x)
      then have "main_loop run rows E T n bs sd c w = Some (Some x, w2)"
        using True lb by (subst main_loop.simps) simp
      then show ?thesis using G w2 by simp
    next
      case None
      then have c2': "c2 = snd (batch_bounds n bs c)" using c2 by simp
      have b: "c < c2" "c2 \<le> n"
        using batch_bounds_inside(3,4) [OF bs less.prems True] by (simp_all add: c2')
      have m: "nat (n - c2) < nat (n - c)" using b True by simp
      have "0 \<le> c2" using b less.prems by simp
      from less.hyps [OF m this, of w2]
      obtain e' w' new where r: "main_loop run rows E T n bs sd c2 w2 = Some (e', w')"
        "calls w' = calls w2 @ new" "\<forall>b\<in>set new. G b" by blast
      have "main_loop run rows E T n bs sd c w = main_loop run rows E T n bs sd c2 w2"
        using True lb None by (subst main_loop.simps) simp
      moreover have "calls w' = calls w @ (call # new)" using r(2) w2 by simp
      moreover have "\<forall>b\<in>set (call # new). G b" using r(3) G by simp
      ultimately have "main_loop run rows E T n bs sd c w = Some (e', w')
           \<and> calls w' = calls w @ (call # new) \<and> (\<forall>b\<in>set (call # new). G b)
           \<and> (c < n \<longrightarrow> call # new \<noteq> [])"
        using r(1) by simp
      then show ?thesis by (intro exI)
    qed
  qed
qed

section \<open>Properties of the batching loop\<close>

text \<open>C9, as amended: with at least one embedding and a configured batch size of at
  least 1, the loop ends, and every pass it makes hands to generation the slice
  \<open>embeddings[count:iend]\<close> of exactly \<open>batch_size\<close> elements, with
  \<open>0 \<le> count < iend \<le> num_embeddings\<close>; the realigned count
  \<open>num_embeddings - batch_size\<close> is not negative. When the graph returns one image per
  embedding, no pass raises.\<close>

theorem batching_loop_invariant:
  fixes run :: "('e, 'i list, 's) generate" and E :: "'e list" and s :: 's
  assumes "1 \<le> n" and "1 \<le> cfg_batch_size"
    and "length E = nat n" and "length T = nat n"
  shows "\<exists>e w'. main_loop run rows E T n (np_minimum n cfg_batch_size) sd 0
                 \<lparr>session = s, written = [], calls = []\<rparr> = Some (e, w')
             \<and> calls w' \<noteq> []
             \<and> (\<forall>b\<in>set (calls w').
                   0 \<le> b_count b \<and> b_count b < b_iend b \<and> b_iend b \<le> n
                   \<and> b_embeddings b = py_slice E (b_count b) (b_iend b)
                   \<and> int (length (b_embeddings b)) = np_minimum n cfg_batch_size
                   \<and> int (length (b_texts b)) = np_minimum n cfg_batch_size)
             \<and> 0 \<le> n - np_minimum n cfg_batch_size
             \<and> (one_image_per_row run \<longrightarrow> e = None)"
proof -
  define bs where "bs = np_minimum n cfg_batch_size"
  have bs: "1 \<le> bs" "bs \<le> n" using assms(1,2) by (auto simp: bs_def np_minimum_def)
  define good :: "'e batch_call \<Rightarrow> bool" where
    "good b \<longleftrightarrow> 0 \<le> b_count b \<and> b_count b < b_iend b \<and> b_iend b \<le> n
                   \<and> b_embeddings b = py_slice E (b_count b) (b_iend b)
                   \<and> int (length (b_embeddings b)) = bs
                   \<and> int (length (b_texts b)) = bs" for b
  have step: "good \<lparr>b_count = fst (batch_bounds n bs c), b_iend = snd (batch_bounds n bs c),
          b_embeddings = py_slice E (fst (batch_bounds n bs c)) (snd (batch_bounds n bs c)),
          b_texts = py_slice T (fst (batch_bounds n bs c)) (snd (batch_bounds n bs c))\<rparr>"
    if c: "0 \<le> c" "c < n" for c
  proof -
    define c' where "c' = fst (batch_bounds n bs c)"
    define iend where "iend = snd (batch_bounds n bs c)"
    have b: "0 \<le> c'" "c' \<le> c" "c < iend" "iend \<le> n" "iend = c' + bs"
      using batch_bounds_inside [OF bs c] by (simp_all add: c'_def iend_def)
    have "length (py_slice E c' iend) = nat bs" "length (py_slice T c' iend) = nat bs"
      using py_slice_inside(2) [of c' iend E] py_slice_inside(2) [of c' iend T] b assms(3,4)
      by simp_all
    then show ?thesis
      using b bs by (simp add: good_def c'_def [symmetric] iend_def [symmetric])
  qed
  have z: "(0::int) \<le> 0" by simp
  have "\<exists>e w' new. main_loop run rows E T n bs sd 0 \<lparr>session = s, written = [], calls = []\<rparr>
                     = Some (e, w')
           \<and> calls w' = calls \<lparr>session = s, written = [], calls = []\<rparr> @ new
           \<and> (\<forall>b\<in>set new. good b) \<and> (0 < n \<longrightarrow> new \<noteq> [])"
    by (rule main_loop_calls [where G = good, OF bs z]) (rule step; assumption)
  then obtain e w' where r: "main_loop run rows E T n bs sd 0
                 \<lparr>session = s, written = [], calls = []\<rparr> = Some (e, w')"
    "calls w' \<noteq> []" "\<forall>b\<in>set (calls w'). good b"
    using assms(1) by auto
  have "e = None" if run: "one_image_per_row run"
  proof -
    have "\<exists>w'' c'. main_loop run rows E T n bs sd 0 \<lparr>session = s, written = [], calls = []\<rparr>
                     = Some (None, w'') \<and> n \<le> c' \<and> True"
      by (rule main_loop_invariant [where I = "\<lambda>c w. True", OF bs assms(3,4) run z]) simp_all
    then show ?thesis using r(1) by auto
  qed
  then show ?thesis using r bs by (auto simp: good_def bs_def)
qed

theorem batching_loop_invariant_witness:
  "(\<exists>w'. main_loop (\<lambda>e (t::nat). ((map (\<lambda>x. 256) e, map (\<lambda>x. 64) e), Suc t)) (\<lambda>i::nat. i) [10, 20, 30::nat]
            [''a'', ''b'', ''c''] 3 (np_minimum 3 2) ''out'' 0
            \<lparr>session = 0, written = [], calls = []\<rparr> = Some (None, w')
          \<and> calls w' \<noteq> []
          \<and> (\<forall>b\<in>set (calls w').
                0 \<le> b_count b \<and> b_count b < b_iend b \<and> b_iend b \<le> 3
                \<and> b_embeddings b = py_slice [10, 20, 30] (b_count b) (b_iend b)
                \<and> int (length (b_embeddings b)) = np_minimum 3 2
                \<and> int (length (b_texts b)) = np_minimum 3 2))
   \<and> map_option (\<lambda>r. map (\<lambda>b. (b_count b, b_iend b, b_embeddings b)) (calls (snd r)))
        (main_loop (\<lambda>e (t::nat). ((map (\<lambda>x. 256) e, map (\<lambda>x. 64) e), Suc t)) (\<lambda>i::nat. i) [10, 20, 30::nat]
            [''a'', ''b'', ''c''] 3 (np_minimum 3 2) ''out'' 0
            \<lparr>session = 0, written = [], calls = []\<rparr>)
       = Some [(0, 2, [10, 20]), (1, 3, [20, 30])]"
proof -
  have h: "(1::int) \<le> 3" "(1::int) \<le> 2" "length [10, 20, 30::nat] = nat 3"
    "length [''a'', ''b'', ''c''] = nat 3"
    "one_image_per_row (\<lambda>e (t::nat). ((map (\<lambda>x. 256::nat) e, map (\<lambda>x. 64) e), Suc t))"
    by (simp_all add: one_image_per_row_def)
  have t: "map_option (\<lambda>r. map (\<lambda>b. (b_count b, b_iend b, b_embeddings b)) (calls (snd r)))
        (main_loop (\<lambda>e (t::nat). ((map (\<lambda>x. 256) e, map (\<lambda>x. 64) e), Suc t)) (\<lambda>i::nat. i) [10, 20, 30::nat]
            [''a'', ''b'', ''c''] 3 (np_minimum 3 2) ''out'' 0
            \<lparr>session = 0, written = [], calls = []\<rparr>)
       = Some [(0, 2, [10, 20]), (1, 3, [20, 30])]"
    by code_simp
  from batching_loop_invariant [OF h(1-4),
      where run = "\<lambda>e (t::nat). ((map (\<lambda>x. 256::nat) e, map (\<lambda>x. 64) e), Suc t)"
        and rows = "\<lambda>i::nat. i" and sd = "''out''" and s = 0]
    h(5) t
  show ?thesis by blast
qed

text \<open>C2, as amended: with at least one embedding, a configured batch size of at least
  1 and a graph that returns one image per embedding, when the number of embeddings is
  not a multiple of the batch size the last pass of the loop is realigned: its slice is
  \<open>[num_embeddings - batch_size, num_embeddings)\<close>; and no pass ends beyond
  \<open>num_embeddings\<close>.\<close>

theorem last_batch_realigned:
  fixes run :: "('e, 'i list, 's) generate" and E :: "'e list" and s :: 's
  assumes "1 \<le> n" and "1 \<le> cfg_batch_size"
    and "length E = nat n" and "length T = nat n"
    and "one_image_per_row run"
    and "n mod np_minimum n cfg_batch_size \<noteq> 0"
  shows "\<exists>w'. main_loop run rows E T n (np_minimum n cfg_batch_size) sd 0
                 \<lparr>session = s, written = [], calls = []\<rparr> = Some (None, w')
             \<and> calls w' \<noteq> []
             \<and> b_iend (last (calls w')) = n
             \<and> b_count (last (calls w')) = n - np_minimum n cfg_batch_size
             \<and> b_embeddings (last (calls w'))
                 = py_slice E (n - np_minimum n cfg_batch_size) n
             \<and> (\<forall>b\<in>set (calls w'). b_iend b \<le> n)"
proof -
  define bs where "bs = np_minimum n cfg_batch_size"
  have bs: "1 \<le> bs" "bs \<le> n" using assms(1,2) by (auto simp: bs_def np_minimum_def)
  have nd: "\<not> bs dvd n" using assms(6) by (simp add: bs_def dvd_eq_mod_eq_0)
  define fin :: "('e, 's) world \<Rightarrow> bool" where
    "fin w \<longleftrightarrow> calls w \<noteq> [] \<and> b_iend (last (calls w)) = n
               \<and> b_count (last (calls w)) = n - bs
               \<and> b_embeddings (last (calls w)) = py_slice E (n - bs) n" for w
  define I :: "int \<Rightarrow> ('e, 's) world \<Rightarrow> bool" where
    "I c w \<longleftrightarrow> ((bs dvd c \<and> c < n) \<or> (c = n \<and> fin w)) \<and> (\<forall>b\<in>set (calls w). b_iend b \<le> n)"
    for c w
  have step: "I c2 w2"
    if c: "0 \<le> c" "c < n" and i: "I c w"
      and lb: "loop_body run rows E T n bs sd c w = (None, c2, w2)" for c w c2 w2
  proof -
    define c' where "c' = fst (batch_bounds n bs c)"
    define iend where "iend = snd (batch_bounds n bs c)"
    have b: "0 \<le> c'" "c' \<le> c" "c < iend" "iend \<le> n" "iend = c' + bs"
      using batch_bounds_inside [OF bs c] by (simp_all add: c'_def iend_def)
    have w2: "calls w2 = calls w @ [\<lparr>b_count = c', b_iend = iend,
                 b_embeddings = py_slice E c' iend, b_texts = py_slice T c' iend\<rparr>]"
      and c2: "c2 = iend"
      using lb loop_body_inside [OF bs assms(3,4) c assms(5), of rows sd w]
      by (auto simp: c'_def iend_def)
    have dv: "bs dvd c" using i c(2) by (auto simp: I_def)
    have "(bs dvd iend \<and> iend < n) \<or> (iend = n \<and> c' = n - bs)"
    proof (cases "c + bs > n")
      case True
      then show ?thesis by (simp add: c'_def iend_def batch_bounds_def)
    next
      case False
      then have e: "iend = c + bs" by (simp add: iend_def batch_bounds_def)
      then have "bs dvd iend" using dv by simp
      moreover have "iend \<noteq> n" using nd \<open>bs dvd iend\<close> by auto
      ultimately show ?thesis using b(4) by simp
    qed
    then have "(bs dvd c2 \<and> c2 < n) \<or> (c2 = n \<and> fin w2)"
      using w2 c2 by (auto simp: fin_def)
    moreover have "\<forall>b\<in>set (calls w2). b_iend b \<le> n"
      using i w2 b(4) by (auto simp: I_def)
    ultimately show ?thesis by (simp add: I_def)
  qed
  have i0: "I 0 \<lparr>session = s, written = [], calls = []\<rparr>"
    using assms(1) by (simp add: I_def)
  have z: "(0::int) \<le> 0" by simp
  have "\<exists>w' c'. main_loop run rows E T n bs sd 0
                 \<lparr>session = s, written = [], calls = []\<rparr> = Some (None, w')
            \<and> n \<le> c' \<and> I c' w'"
    by (rule main_loop_invariant [where I = I, OF bs assms(3,4,5) z i0]) (rule step; assumption)
  then obtain w' c' where r: "main_loop run rows E T n bs sd 0
                 \<lparr>session = s, written = [], calls = []\<rparr> = Some (None, w')"
    "n \<le> c'" "I c' w'" by auto
  have "fin w'" using r(2,3) by (auto simp: I_def)
  then show ?thesis using r(1,3) by (auto simp: I_def fin_def bs_def)
qed

theorem last_batch_realigned_witness:
  "(\<exists>w'. main_loop (\<lambda>e (t::nat). ((map (\<lambda>x. 256) e, map (\<lambda>x. 64) e), Suc t)) (\<lambda>i::nat. i) [10, 20, 30, 40, 50::nat]
            [''a'', ''b'', ''c'', ''d'', ''e''] 5 (np_minimum 5 2) ''out'' 0
            \<lparr>session = 0, written = [], calls = []\<rparr> = Some (None, w')
          \<and> calls w' \<noteq> []
          \<and> b_iend (last (calls w')) = 5
          \<and> b_count (last (calls w')) = 5 - np_minimum 5 2
          \<and> b_embeddings (last (calls w')) = py_slice [10, 20, 30, 40, 50] (5 - np_minimum 5 2) 5
          \<and> (\<forall>b\<in>set (calls w'). b_iend b \<le> 5))
   \<and> py_slice [10, 20, 30, 40, 50::nat] (5 - np_minimum 5 2) 5 = [40, 50]"
proof -
  have h: "(1::int) \<le> 5" "(1::int) \<le> 2" "length [10, 20, 30, 40, 50::nat] = nat 5"
    "length [''a'', ''b'', ''c'', ''d'', ''e''] = nat 5"
    "one_image_per_row (\<lambda>e (t::nat). ((map (\<lambda>x. 256::nat) e, map (\<lambda>x. 64) e), Suc t))"
    "5 mod np_minimum 5 2 \<noteq> 0"
    by (simp_all add: np_minimum_def one_image_per_row_def)
  have t: "py_slice [10, 20, 30, 40, 50::nat] (5 - np_minimum 5 2) 5 = [40, 50]"
    by code_simp
  from last_batch_realigned [OF h, of "\<lambda>i::nat. i" "''out''" 0]
    t
  show ?thesis by blast
qed


text \<open>C9 as stated fails for a configured batch size of 0: the only pass has
  \<open>count = iend = 0\<close> and an empty slice, and the run stops on an index error.\<close>

theorem batching_loop_invariant_counterexample:
  "map_option (\<lambda>r. (fst r, map (\<lambda>b. (b_count b, b_iend b, b_embeddings b)) (calls (snd r))))
     (main_loop (\<lambda>e (t::nat). ((map (\<lambda>x. 256) e, map (\<lambda>x. 64) e), Suc t)) (\<lambda>i::nat. i)
        [10::nat] [''a''] 1 (np_minimum 1 0) ''out'' 0
        \<lparr>session = 0, written = [], calls = []\<rparr>)
   = Some (Some IndexError, [(0, 0, [])])"
  by code_simp

text \<open>C2 as stated fails for a configured batch size below 1: with 3 embeddings and
  batch size -2 or 0 no pass ends at 3, and the run stops on an index error.\<close>

theorem last_batch_realigned_counterexample:
  "3 mod np_minimum 3 (-2) \<noteq> 0
   \<and> map_option (\<lambda>r. (fst r, map (\<lambda>b. (b_count b, b_iend b)) (calls (snd r))))
       (main_loop (\<lambda>e (t::nat). ((map (\<lambda>x. 256) e, map (\<lambda>x. 64) e), Suc t)) (\<lambda>i::nat. i)
          [10, 20, 30::nat] [''a'', ''b'', ''c''] 3 (np_minimum 3 (-2)) ''out'' 0
          \<lparr>session = 0, written = [], calls = []\<rparr>)
     = Some (Some IndexError, [(0, -2), (-2, -4)])
   \<and> 3 mod np_minimum 3 0 \<noteq> 0
   \<and> map_option (\<lambda>r. (fst r, map (\<lambda>b. (b_count b, b_iend b)) (calls (snd r))))
       (main_loop (\<lambda>e (t::nat). ((map (\<lambda>x. 256) e, map (\<lambda>x. 64) e), Suc t)) (\<lambda>i::nat. i)
          [10, 20, 30::nat] [''a'', ''b'', ''c''] 3 (np_minimum 3 0) ''out'' 0
          \<lparr>session = 0, written = [], calls = []\<rparr>)
     = Some (Some IndexError, [(0, 0)])"
  by code_simp

section \<open>The files written by a run\<close>

lemma new_files_set:
  assumes "0 \<le> c'" "0 \<le> bs" "c' + bs \<le> int (length T)"
  shows "set (map (\<lambda>j. F (c' + j))
               (filter (\<lambda>j. P (py_slice T c' (c' + bs) ! nat j)) (py_range bs)))
         = F ` {k. c' \<le> k \<and> k < c' + bs \<and> P (T ! nat k)}"
proof -
  have nth: "py_slice T c' (c' + bs) ! nat j = T ! nat (c' + j)" if "0 \<le> j" "j < bs" for j
    using py_slice_nth [of c' "c' + bs" T "nat j"] assms that
    by (simp add: nat_add_distrib)
  have "set (map (\<lambda>j. F (c' + j))
               (filter (\<lambda>j. P (py_slice T c' (c' + bs) ! nat j)) (py_range bs)))
        = (\<lambda>j. F (c' + j)) ` {j. 0 \<le> j \<and> j < bs \<and> P (T ! nat (c' + j))}"
    using nth by (auto simp: set_py_range)
  also have "\<dots> = F ` ((\<lambda>j. c' + j) ` {j. 0 \<le> j \<and> j < bs \<and> P (T ! nat (c' + j))})"
    by (simp add: image_image)
  also have "(\<lambda>j. c' + j) ` {j. 0 \<le> j \<and> j < bs \<and> P (T ! nat (c' + j))}
             = {k. c' \<le> k \<and> k < c' + bs \<and> P (T ! nat k)}"
  proof (intro set_eqI iffI)
    fix k assume "k \<in> (\<lambda>j. c' + j) ` {j. 0 \<le> j \<and> j < bs \<and> P (T ! nat (c' + j))}"
    then show "k \<in> {k. c' \<le> k \<and> k < c' + bs \<and> P (T ! nat k)}" by auto
  next
    fix k assume "k \<in> {k. c' \<le> k \<and> k < c' + bs \<and> P (T ! nat k)}"
    then have "k - c' \<in> {j. 0 \<le> j \<and> j < bs \<and> P (T ! nat (c' + j))}" "k = c' + (k - c')"
      by simp_all
    then show "k \<in> (\<lambda>j. c' + j) ` {j. 0 \<le> j \<and> j < bs \<and> P (T ! nat (c' + j))}"
      by blast
  qed
  finally show ?thesis .
qed

lemma main_loop_written:
  fixes run :: "('e, 'i list, 's) generate" and E :: "'e list" and s :: 's
  assumes bs: "1 \<le> bs" "bs \<le> n" and E: "length E = nat n" and T: "length T = nat n"
    and run: "one_image_per_row run"
  shows "\<exists>w'. main_loop run rows E T n bs sd 0 \<lparr>session = s, written = [], calls = []\<rparr>
                = Some (None, w')
           \<and> (sd \<noteq> [] \<longrightarrow> set (written w')
                 = fullpath_of sd ` {k. 0 \<le> k \<and> k < n \<and> re_search_alpha (T ! nat k)})
           \<and> (sd = [] \<longrightarrow> written w' = [])"
proof -
  define I :: "int \<Rightarrow> ('e, 's) world \<Rightarrow> bool" where
    "I c w \<longleftrightarrow> c \<le> n
        \<and> (sd \<noteq> [] \<longrightarrow> set (written w)
              = fullpath_of sd ` {k. 0 \<le> k \<and> k < c \<and> re_search_alpha (T ! nat k)})
        \<and> (sd = [] \<longrightarrow> written w = [])" for c w
  have step: "I c2 w2"
    if c: "0 \<le> c" "c < n" and i: "I c w"
      and lb: "loop_body run rows E T n bs sd c w = (None, c2, w2)" for c w c2 w2
  proof -
    define c' where "c' = fst (batch_bounds n bs c)"
    define iend where "iend = snd (batch_bounds n bs c)"
    have b: "0 \<le> c'" "c' \<le> c" "c < iend" "iend \<le> n" "iend = c' + bs"
      using batch_bounds_inside [OF bs c] by (simp_all add: c'_def iend_def)
    have c2: "c2 = iend"
      and w2: "written w2 = written w @
               (if sd \<noteq> []
                then map (\<lambda>j. fullpath_of sd (c' + j))
                       (filter (\<lambda>j. re_search_alpha (py_slice T c' iend ! nat j)) (py_range bs))
                else [])"
      using lb loop_body_inside [OF bs E T c run, of rows sd w]
      by (auto simp: c'_def iend_def)
    have new: "set (map (\<lambda>j. fullpath_of sd (c' + j))
                       (filter (\<lambda>j. re_search_alpha (py_slice T c' iend ! nat j)) (py_range bs)))
               = fullpath_of sd ` {k. c' \<le> k \<and> k < iend \<and> re_search_alpha (T ! nat k)}"
      unfolding b(5)
      by (rule new_files_set) (use b bs T in simp_all)
    have un: "{k. 0 \<le> k \<and> k < c \<and> re_search_alpha (T ! nat k)}
              \<union> {k. c' \<le> k \<and> k < iend \<and> re_search_alpha (T ! nat k)}
              = {k. 0 \<le> k \<and> k < iend \<and> re_search_alpha (T ! nat k)}"
      using b by auto
    have "sd \<noteq> [] \<longrightarrow> set (written w2)
              = fullpath_of sd ` {k. 0 \<le> k \<and> k < iend \<and> re_search_alpha (T ! nat k)}"
      using i w2 new un by (auto simp: I_def image_Un [symmetric] simp del: image_Un)
    moreover have "sd = [] \<longrightarrow> written w2 = []" using i w2 by (simp add: I_def)
    ultimately show ?thesis using b(4) c2 by (simp add: I_def)
  qed
  have i0: "I 0 \<lparr>session = s, written = [], calls = []\<rparr>"
    using bs by (simp add: I_def)
  have z: "(0::int) \<le> 0" by simp
  have "\<exists>w' c'. main_loop run rows E T n bs sd 0
                 \<lparr>session = s, written = [], calls = []\<rparr> = Some (None, w')
            \<and> n \<le> c' \<and> I c' w'"
    by (rule main_loop_invariant [where I = I, OF bs E T run z i0]) (rule step; assumption)
  then obtain w' c' where r: "main_loop run rows E T n bs sd 0
                 \<lparr>session = s, written = [], calls = []\<rparr> = Some (None, w')"
    "n \<le> c'" "I c' w'" by auto
  have "c' = n" using r(2,3) by (simp add: I_def)
  then show ?thesis using r(1,3) by (auto simp: I_def)
qed

text \<open>When the folder to save to is not the empty string, the files written are exactly
  \<open>sentence<k>.jpg\<close> for the lines \<open>k\<close> whose normalised text has a letter, so the number
  of distinct files is the number of such lines: for a caption file with at least one
  line, a configured batch size of at least 1, a checkpoint path with \<open>.ckpt\<close> whose
  restoring does not raise, and a graph that returns one image per embedding.\<close>

lemma files_written_in_folder:
  fixes run :: "('e, 'i list, 's) generate" and embed_one :: "string \<Rightarrow> 'e" and s :: 's
  assumes "texts \<noteq> []" and "1 \<le> TEST_BATCH_SIZE config"
    and "\<exists>u v. TEST_PRETRAINED_MODEL config = u @ ''.ckpt'' @ v"
    and "restore (TEST_PRETRAINED_MODEL config) = None"
    and "one_image_per_row run"
    and "save_dir_of save_dir_arg caption_path \<noteq> []"
  shows "\<exists>w'. main run rows restore normalize_fn embed_one config caption_path save_dir_arg
                 texts s = Some (None, w')
           \<and> set (written w')
               = (\<lambda>k. fullpath_of (save_dir_of save_dir_arg caption_path) (int k))
                   ` {k. k < length texts \<and> re_search_alpha (normalize_fn (texts ! k))}
           \<and> card (set (written w'))
               = length (filter re_search_alpha (map normalize_fn texts))"
proof -
  define T where "T = map normalize_fn texts"
  define E where "E = map embed_one T"
  define n where "n = int (length T)"
  define bs where "bs = np_minimum n (TEST_BATCH_SIZE config)"
  define sd where "sd = save_dir_of save_dir_arg caption_path"
  have n: "1 \<le> n" using assms(1) by (cases texts) (simp_all add: n_def T_def)
  have bs: "1 \<le> bs" "bs \<le> n" using n assms(2) by (auto simp: bs_def np_minimum_def)
  have len: "length E = nat n" "length T = nat n" by (simp_all add: E_def n_def)
  have f: "py_find (TEST_PRETRAINED_MODEL config) ''.ckpt'' 0 \<noteq> -1"
    using assms(3) py_find_ckpt_none [of "TEST_PRETRAINED_MODEL config"] by blast
  define sess :: "'s session" where "sess = \<lparr>variables_loaded = False, run_state = s\<rparr>"
  define w0 :: "('e, 's) world" where "w0 = \<lparr>session = s, written = [], calls = []\<rparr>"
  have bm: "build_model restore sess bs (TEST_PRETRAINED_MODEL config)
            = Inr (\<lparr>printed = [''Reading model parameters from ''
                                 @ TEST_PRETRAINED_MODEL config],
                    restored = Some (TEST_PRETRAINED_MODEL config)\<rparr>,
                   \<lparr>variables_loaded = True, run_state = s\<rparr>)"
    using f assms(4) bs(1) by (simp add: build_model_def sess_def)
  have m: "main run rows restore normalize_fn embed_one config caption_path save_dir_arg texts s
           = main_loop run rows E T n bs sd 0 \<lparr>session = s, written = [], calls = []\<rparr>"
    using n bm
    by (simp add: main_unfold [OF T_def n_def bs_def w0_def sess_def] E_def sd_def w0_def)
  obtain w' where r: "main_loop run rows E T n bs sd 0 \<lparr>session = s, written = [], calls = []\<rparr>
                = Some (None, w')"
    and fl: "sd \<noteq> [] \<longrightarrow> set (written w')
                 = fullpath_of sd ` {k. 0 \<le> k \<and> k < n \<and> re_search_alpha (T ! nat k)}"
    using main_loop_written [OF bs len assms(5), of rows sd s] by blast
  define S where "S = {k. k < length texts \<and> re_search_alpha (normalize_fn (texts ! k))}"
  have S: "{k. 0 \<le> k \<and> k < n \<and> re_search_alpha (T ! nat k)} = int ` S"
  proof (intro set_eqI iffI)
    fix k assume "k \<in> {k. 0 \<le> k \<and> k < n \<and> re_search_alpha (T ! nat k)}"
    then have "nat k \<in> S" "k = int (nat k)" by (auto simp: S_def n_def T_def)
    then show "k \<in> int ` S" by blast
  next
    fix k assume "k \<in> int ` S"
    then show "k \<in> {k. 0 \<le> k \<and> k < n \<and> re_search_alpha (T ! nat k)}"
      by (auto simp: S_def n_def T_def)
  qed
  have inj: "inj_on (\<lambda>k. fullpath_of sd (int k)) S"
  proof (rule inj_onI)
    fix x y assume "fullpath_of sd (int x) = fullpath_of sd (int y)"
    then have "int x = int y" by (rule fullpath_of_inj [rotated 2]) simp_all
    then show "x = y" by simp
  qed
  have cS: "card S = length (filter re_search_alpha (map normalize_fn texts))"
  proof -
    have "S = {k. k < length (map normalize_fn texts)
                 \<and> re_search_alpha (map normalize_fn texts ! k)}"
      by (auto simp: S_def)
    then show ?thesis by (simp only: length_filter_conv_card)
  qed
  have sd: "sd \<noteq> []" using assms(6) by (simp add: sd_def)
  have set: "set (written w') = (\<lambda>k. fullpath_of sd (int k)) ` S"
    using fl sd by (simp add: S image_image)
  have "card (set (written w')) = length (filter re_search_alpha (map normalize_fn texts))"
    using set card_image [OF inj] cS by simp
  then show ?thesis using m r set by (simp add: sd_def [symmetric] S_def [symmetric])
qed

text \<open>C3 fails on the code for a caption path without a directory part and no
  \<open>--save_dir\<close>: the folder defaults to the directory of the caption file (lines
  264--265), which is then the empty string, and every write is skipped; two lines have
  letters and no file is written. The same file named with its directory,
  \<open>./captions.txt\<close>, gives the two files.\<close>

theorem bare_caption_path_writes_nothing:
  "map_option (\<lambda>r. (fst r, written (snd r)))
     (main (\<lambda>e (t::nat). ((map (\<lambda>x. 256) e, map (\<lambda>x. 64) e), Suc t)) (\<lambda>i::nat. i)
        (\<lambda>p. None) id length
        \<lparr>TEST_BATCH_SIZE = 2, TEST_PRETRAINED_MODEL = ''m/model.ckpt''\<rparr>
        ''captions.txt'' None [''a bird'', ''123'', ''red bird''] 0)
     = Some (None, [])
   \<and> length (filter re_search_alpha (map id [''a bird'', ''123'', ''red bird''])) = 2
   \<and> map_option (\<lambda>r. (fst r, written (snd r)))
       (main (\<lambda>e (t::nat). ((map (\<lambda>x. 256) e, map (\<lambda>x. 64) e), Suc t)) (\<lambda>i::nat. i)
          (\<lambda>p. None) id length
          \<lparr>TEST_BATCH_SIZE = 2, TEST_PRETRAINED_MODEL = ''m/model.ckpt''\<rparr>
          ''./captions.txt'' None [''a bird'', ''123'', ''red bird''] 0)
       = Some (None, [''./sentence0.jpg'', ''./sentence2.jpg''])"
  by code_simp

end
